theory Spec2Isabelle
  imports Main "HOL-Library.Multiset" "HOL-Library.Sublist"
begin

section \<open>Data model\<close>

text \<open>
  The grid class of \<^verbatim>\<open>sudoku.py\<close> is a numpy matrix of \<^verbatim>\<open>uint8\<close> with two extra
  attributes, \<^verbatim>\<open>n\<close> (side length) and \<^verbatim>\<open>sr\<close> (box side). Cell values are modelled as
  natural numbers; the one place where the eight-bit width matters, the conversion of the
  caller's data in the constructor, writes the reduction modulo 256 out.
\<close>

record sudoku =
  grid_n :: nat
  grid_sr :: nat
  cells :: "nat list list"

text \<open>
  The assertion messages of the constructor and the exceptions of the generator, under the
  names the specification gives them; \<open>NumpyValueError\<close> and \<open>IndexError\<close> are raised by
  numpy itself (ragged input, empty sampling range, index outside the matrix).
\<close>

datatype error =
    InvalidShape
  | NotPerfectSquare
  | ValueOutOfRange
  | IncompleteSeedGrid
  | InvalidRemovalCount
  | GenerationExhausted
  | NumpyValueError
  | IndexError

text \<open>What \<^verbatim>\<open>np.array\<close> makes of its argument: a shape and the rows of integers.\<close>

record ndarray =
  shape :: "nat list"
  elems :: "int list list"

definition np_array :: "int list list \<Rightarrow> error + ndarray" where
  \<comment> \<open>a nested sequence: the empty sequence is one-dimensional, ragged rows are refused\<close>
  "np_array grid =
     (if grid = [] then Inr \<lparr>shape = [0], elems = []\<rparr>
      else if list_all (\<lambda>row. length row = length (hd grid)) grid
        then Inr \<lparr>shape = [length grid, length (hd grid)], elems = grid\<rparr>
      else Inl NumpyValueError)"

definition np_zeros :: "nat \<Rightarrow> nat \<Rightarrow> ndarray" where
  "np_zeros r c = \<lparr>shape = [r, c], elems = replicate r (replicate c 0)\<rparr>"

definition unsigned :: "int \<Rightarrow> nat" where
  \<comment> \<open>the cast to \<^verbatim>\<open>uint8\<close> keeps the low eight bits\<close>
  "unsigned v = nat (v mod 256)"

definition isqrt :: "nat \<Rightarrow> nat" where
  \<comment> \<open>the integer part of the square root\<close>
  "isqrt m = length (filter (\<lambda>i. i * i \<le> m) [1..<Suc m])"

definition new_sudoku :: "ndarray \<Rightarrow> bool \<Rightarrow> error + sudoku" where
  \<comment> \<open>\<^verbatim>\<open>Sudoku.__new__\<close> after the conversion of its argument by \<^verbatim>\<open>np.array\<close>\<close>
  "new_sudoku a verify =
     (case shape a of
        [] \<Rightarrow> Inl IndexError
      | m # rest \<Rightarrow>
          let obj = map (map unsigned) (elems a);
              s = isqrt m;
              round_sr = unsigned (int s)
          in if verify \<and> length (shape a) \<noteq> 2 then Inl InvalidShape
             else if verify \<and> m \<noteq> shape a ! 1 then Inl InvalidShape
             else if verify \<and> \<not> (s * s = m \<and> s = round_sr) then Inl NotPerfectSquare
             else if verify \<and> \<not> list_all (list_all (\<lambda>v. 0 \<le> v \<and> v \<le> m)) obj
               then Inl ValueOutOfRange
             else Inr \<lparr>grid_n = unsigned (int m), grid_sr = round_sr, cells = obj\<rparr>)"

definition Sudoku :: "int list list \<Rightarrow> bool \<Rightarrow> error + sudoku" where
  \<comment> \<open>the constructor called on a matrix given as rows of integers\<close>
  "Sudoku grid verify =
     (case np_array grid of Inl e \<Rightarrow> Inl e | Inr a \<Rightarrow> new_sudoku a verify)"

definition trusted_copy :: "sudoku \<Rightarrow> sudoku" where
  \<comment> \<open>\<^verbatim>\<open>Sudoku(self, _verify=False)\<close>: the cells are \<^verbatim>\<open>uint8\<close> already and are copied as they are\<close>
  "trusted_copy g =
     \<lparr>grid_n = unsigned (int (length (cells g))),
      grid_sr = unsigned (int (isqrt (length (cells g)))),
      cells = cells g\<rparr>"

definition empty :: "nat \<Rightarrow> error + sudoku" where
  "empty m = new_sudoku (np_zeros m m) True"

section \<open>Constraint checks\<close>

definition box :: "sudoku \<Rightarrow> nat \<Rightarrow> nat \<Rightarrow> nat list list" where
  "box g row col =
     (let r = row div grid_sr g * grid_sr g;
          c = col div grid_sr g * grid_sr g
      in map (\<lambda>rw. take (grid_sr g) (drop c rw)) (take (grid_sr g) (drop r (cells g))))"

definition row_safe :: "sudoku \<Rightarrow> nat \<Rightarrow> nat \<Rightarrow> bool" where
  "row_safe g row digit = (digit \<notin> set (cells g ! row))"

definition col_safe :: "sudoku \<Rightarrow> nat \<Rightarrow> nat \<Rightarrow> bool" where
  "col_safe g col digit = (digit \<notin> set (map (\<lambda>rw. rw ! col) (cells g)))"

definition box_safe :: "sudoku \<Rightarrow> nat \<Rightarrow> nat \<Rightarrow> nat \<Rightarrow> bool" where
  "box_safe g row col digit = (digit \<notin> set (concat (box g row col)))"

definition is_safe :: "sudoku \<Rightarrow> nat \<Rightarrow> nat \<Rightarrow> nat \<Rightarrow> bool" where
  "is_safe g row col digit =
     (row_safe g row digit \<and> col_safe g col digit \<and> box_safe g row col digit)"

definition empty_cells :: "sudoku \<Rightarrow> (nat \<times> nat) list" where
  \<comment> \<open>\<^verbatim>\<open>np.argwhere(self == 0)\<close>: the positions of the zero cells in row-major order\<close>
  "empty_cells g =
     concat (map (\<lambda>r. map (\<lambda>c. (r, c))
                    (filter (\<lambda>c. cells g ! r ! c = 0) [0..<length (cells g ! r)]))
              [0..<length (cells g)])"

definition find_empty :: "sudoku \<Rightarrow> (nat \<times> nat) option" where
  "find_empty g = (case empty_cells g of [] \<Rightarrow> None | rc # _ \<Rightarrow> Some rc)"

definition candidates :: "sudoku \<Rightarrow> nat \<Rightarrow> nat \<Rightarrow> nat list" where
  "candidates g row col = filter (is_safe g row col) [1..<Suc (grid_n g)]"

definition set_cell :: "sudoku \<Rightarrow> nat \<times> nat \<Rightarrow> nat \<Rightarrow> sudoku" where
  \<comment> \<open>the assignment \<^verbatim>\<open>self[row, col] = v\<close>\<close>
  "set_cell g rc v =
     g\<lparr>cells := (cells g)[fst rc := (cells g ! fst rc)[snd rc := v]]\<rparr>"

section \<open>The random source\<close>

text \<open>
  The global numpy generator is made an explicit argument: the infinite sequence of raw
  draws still to come, \<open>rs 0\<close> being the next one. A bounded draw reduces the next raw draw
  modulo the bound. \<^verbatim>\<open>np.random.shuffle\<close> is the Fisher-Yates loop of numpy: for \<open>i\<close> from the
  last index down to 1 it swaps position \<open>i\<close> with a position drawn from \<open>0..i\<close>.
\<close>

type_synonym rng = "nat \<Rightarrow> nat"

definition next_raw :: "rng \<Rightarrow> nat" where
  "next_raw rs = rs 0"

definition advance :: "rng \<Rightarrow> rng" where
  "advance rs = (\<lambda>i. rs (Suc i))"

fun shuffle_from :: "nat \<Rightarrow> nat list \<Rightarrow> rng \<Rightarrow> nat list \<times> rng" where
  "shuffle_from 0 xs rs = (xs, rs)"
| "shuffle_from (Suc i) xs rs =
     (let j = next_raw rs mod Suc (Suc i)
      in shuffle_from i (xs[Suc i := xs ! j, j := xs ! Suc i]) (advance rs))"

definition shuffle :: "nat list \<Rightarrow> rng \<Rightarrow> nat list \<times> rng" where
  "shuffle xs rs = shuffle_from (length xs - 1) xs rs"

definition random_candidates :: "sudoku \<Rightarrow> nat \<Rightarrow> nat \<Rightarrow> rng \<Rightarrow> nat list \<times> rng" where
  "random_candidates g row col rs = shuffle (candidates g row col) rs"

section \<open>Basic facts about cells and the random source\<close>

lemma set_empty_cells:
  "set (empty_cells g) =
     {(r, c). r < length (cells g) \<and> c < length (cells g ! r) \<and> cells g ! r ! c = 0}"
  by (auto simp: empty_cells_def)

lemma find_empty_None: "find_empty g = None \<longleftrightarrow> set (empty_cells g) = {}"
  by (cases "empty_cells g") (simp_all add: find_empty_def)

lemma find_empty_Some: "find_empty g = Some rc \<Longrightarrow> rc \<in> set (empty_cells g)"
  by (cases "empty_cells g") (simp_all add: find_empty_def)

lemma grid_n_set_cell [simp]: "grid_n (set_cell g rc v) = grid_n g"
  and grid_sr_set_cell [simp]: "grid_sr (set_cell g rc v) = grid_sr g"
  by (simp_all add: set_cell_def)

lemma length_cells_set_cell [simp]: "length (cells (set_cell g rc v)) = length (cells g)"
  by (simp add: set_cell_def)

lemma length_row_set_cell [simp]:
  "length (cells (set_cell g rc v) ! r) = length (cells g ! r)"
  by (cases "fst rc < length (cells g)") (simp_all add: set_cell_def nth_list_update not_less list_update_beyond)

lemma cell_set_cell:
  "r < length (cells g) \<Longrightarrow> c < length (cells g ! r) \<Longrightarrow>
     cells (set_cell g rc v) ! r ! c = (if (r, c) = rc then v else cells g ! r ! c)"
proof -
  assume r: "r < length (cells g)" and c: "c < length (cells g ! r)"
  obtain a b where rc: "rc = (a, b)" by (cases rc)
  show ?thesis
  proof (cases "r = a")
    case True
    with r c rc show ?thesis by (simp add: set_cell_def nth_list_update)
  next
    case False
    with r c rc show ?thesis by (simp add: set_cell_def)
  qed
qed

lemma empty_cells_set_cell:
  "set (empty_cells (set_cell g rc v)) =
     (if v = 0 then set (empty_cells g) \<union> ({rc} \<inter> {(r, c). r < length (cells g) \<and> c < length (cells g ! r)})
      else set (empty_cells g) - {rc})"
  by (auto simp: set_empty_cells cell_set_cell split: if_splits)

lemma empty_cells_set_cell_nonzero:
  "v \<noteq> 0 \<Longrightarrow> set (empty_cells (set_cell g rc v)) = set (empty_cells g) - {rc}"
  by (simp add: empty_cells_set_cell)

lemma empty_cells_set_cell_subset:
  "set (empty_cells (set_cell g rc v)) \<subseteq> insert rc (set (empty_cells g))"
  by (auto simp add: empty_cells_set_cell)

lemma empty_cells_set_cell_minus:
  "set (empty_cells (set_cell g rc v)) - {rc} = set (empty_cells g) - {rc}"
  by (auto simp add: empty_cells_set_cell)

lemma set_cell_twice [simp]: "set_cell (set_cell g rc v) rc w = set_cell g rc w"
proof (cases "fst rc < length (cells g)")
  case True
  then show ?thesis by (simp add: set_cell_def)
next
  case False
  then show ?thesis by (simp add: set_cell_def not_less list_update_beyond)
qed

lemma set_cell_same: "rc \<in> set (empty_cells g) \<Longrightarrow> set_cell g rc 0 = g"
proof -
  assume "rc \<in> set (empty_cells g)"
  then have "cells g ! fst rc ! snd rc = 0"
    unfolding set_empty_cells by auto
  then have "(cells g ! fst rc)[snd rc := 0] = cells g ! fst rc"
    by (metis list_update_id)
  then show ?thesis by (simp add: set_cell_def)
qed

lemma mset_shuffle_from:
  "i < length xs \<Longrightarrow> mset (fst (shuffle_from i xs rs)) = mset xs"
proof (induction i xs rs rule: shuffle_from.induct)
  case (1 xs rs)
  then show ?case by simp
next
  case (2 i xs rs)
  let ?j = "next_raw rs mod Suc (Suc i)"
  have j: "?j < length xs" using "2.prems" by (meson less_trans_Suc mod_less_divisor not_less_eq zero_less_Suc less_Suc_eq_le order_less_le_trans)
  have "mset (xs[Suc i := xs ! ?j, ?j := xs ! Suc i]) = mset xs"
    using "2.prems" j by (simp add: mset_swap)
  moreover have "i < length (xs[Suc i := xs ! ?j, ?j := xs ! Suc i])" using "2.prems" by simp
  ultimately show ?case using "2.IH"[OF refl] by (simp add: Let_def)
qed

lemma mset_shuffle: "mset (fst (shuffle xs rs)) = mset xs"
  by (cases xs) (simp_all add: shuffle_def mset_shuffle_from)

lemma set_random_candidates:
  "set (fst (random_candidates g r c rs)) = set (candidates g r c)"
  unfolding random_candidates_def using mset_shuffle by (metis set_mset_mset)

lemma candidates_nonzero: "d \<in> set (candidates g r c) \<Longrightarrow> d \<noteq> 0"
  by (auto simp: candidates_def)

section \<open>Single-solution search\<close>

text \<open>
  \<^verbatim>\<open>solve_inplace\<close> mutates the grid it is called on. The model passes the state of that
  grid through the search: the result is the flag "a solution was found" (the \<^verbatim>\<open>Optional\<close>
  result is the grid itself or \<^verbatim>\<open>None\<close>), the state of the grid when the call returns and
  the remaining random draws. \<open>try_candidates\<close> is the \<^verbatim>\<open>for\<close> loop over the shuffled
  candidates together with the two statements that follow it.
\<close>

function solve_inplace :: "sudoku \<Rightarrow> rng \<Rightarrow> bool \<times> sudoku \<times> rng"
  and try_candidates :: "nat \<times> nat \<Rightarrow> nat list \<Rightarrow> sudoku \<Rightarrow> rng \<Rightarrow> bool \<times> sudoku \<times> rng"
where
  "solve_inplace g rs =
     (case find_empty g of
        None \<Rightarrow> (True, g, rs)
      | Some rc \<Rightarrow>
          (case random_candidates g (fst rc) (snd rc) rs of
             (cands, rs') \<Rightarrow> try_candidates rc cands g rs'))"
| "try_candidates rc [] g rs = (False, set_cell g rc 0, rs)"
| "try_candidates rc (candidate # rest) g rs =
     (case solve_inplace (set_cell g rc candidate) rs of
        (True, g', rs') \<Rightarrow> (True, g', rs')
      | (False, g', rs') \<Rightarrow> try_candidates rc rest g' rs')"
  by pat_completeness auto

lemma fail_restores_dom:
  "solve_inplace_try_candidates_dom (Inl (g, rs)) \<Longrightarrow>
     solve_inplace g rs = (False, g', rs') \<Longrightarrow> g' = g"
  "solve_inplace_try_candidates_dom (Inr (rc, ds, g, rs)) \<Longrightarrow>
     try_candidates rc ds g rs = (False, g', rs') \<Longrightarrow> g' = set_cell g rc 0"
proof (induction g rs and rc ds g rs arbitrary: g' rs' and g' rs'
        rule: solve_inplace_try_candidates.pinduct)
  case (1 g rs)
  show ?case
  proof (cases "find_empty g")
    case None
    with 1 show ?thesis by (simp add: solve_inplace.psimps)
  next
    case (Some rc)
    obtain cands rs1 where rc: "random_candidates g (fst rc) (snd rc) rs = (cands, rs1)"
      by (cases "random_candidates g (fst rc) (snd rc) rs")
    from 1(1,3) Some rc have "try_candidates rc cands g rs1 = (False, g', rs')"
      by (simp add: solve_inplace.psimps)
    from 1(2)[OF Some rc[symmetric] this] have "g' = set_cell g rc 0" .
    then show ?thesis using set_cell_same[OF find_empty_Some[OF Some]] by simp
  qed
next
  case (2 rc g rs)
  then show ?case by (simp add: try_candidates.psimps)
next
  case (3 rc candidate rest g rs)
  obtain ok g1 rs1 where s: "solve_inplace (set_cell g rc candidate) rs = (ok, g1, rs1)"
    by (cases "solve_inplace (set_cell g rc candidate) rs")
  show ?case
  proof (cases ok)
    case True
    with 3(1,4) s show ?thesis by (simp add: try_candidates.psimps)
  next
    case False
    with 3(1,4) s have t: "try_candidates rc rest g1 rs1 = (False, g', rs')"
      by (simp add: try_candidates.psimps)
    from 3(2) s False have g1: "g1 = set_cell g rc candidate" by simp
    from False have "ok = False" by simp
    from 3(3)[OF s[symmetric] this refl t] have "g' = set_cell g1 rc 0" .
    with g1 show ?thesis by simp
  qed
qed

definition solve_measure :: "sudoku \<times> rng + (nat \<times> nat) \<times> nat list \<times> sudoku \<times> rng \<Rightarrow> nat \<times> nat \<times> nat" where
  "solve_measure x =
     (case x of
        Inl (g, rs) \<Rightarrow> (card (set (empty_cells g)), 1, 0)
      | Inr (rc, ds, g, rs) \<Rightarrow>
          (card (set (empty_cells g) - {rc}) + (if 0 \<in> set ds then 2 else 1), 0, length ds))"

lemma solve_measure_Inl [simp]:
  "solve_measure (Inl (g, rs)) = (card (set (empty_cells g)), 1, 0)"
  by (simp add: solve_measure_def)

lemma solve_measure_Inr [simp]:
  "solve_measure (Inr (rc, ds, g, rs)) =
     (card (set (empty_cells g) - {rc}) + (if 0 \<in> set ds then 2 else 1), 0, length ds)"
  by (simp add: solve_measure_def)

lemma card_empty_cells_found:
  "find_empty g = Some rc \<Longrightarrow>
     card (set (empty_cells g)) = Suc (card (set (empty_cells g) - {rc}))"
  using find_empty_Some[of g rc] card.remove[of "set (empty_cells g)" rc] by simp

lemma card_empty_cells_set_cell_le:
  "card (set (empty_cells (set_cell g rc v))) \<le> Suc (card (set (empty_cells g) - {rc}))"
proof -
  have "set (empty_cells (set_cell g rc v)) \<subseteq> insert rc (set (empty_cells g) - {rc})"
    using empty_cells_set_cell_subset[of g rc v] by auto
  then have "card (set (empty_cells (set_cell g rc v)))
      \<le> card (insert rc (set (empty_cells g) - {rc}))"
    by (intro card_mono) auto
  also have "\<dots> = Suc (card (set (empty_cells g) - {rc}))"
    by (rule card_insert_disjoint) auto
  finally show ?thesis .
qed

termination solve_inplace
proof (relation "inv_image (less_than <*lex*> less_than <*lex*> less_than) solve_measure")
  show "wf (inv_image (less_than <*lex*> less_than <*lex*> less_than) solve_measure)"
    by auto
next
  fix g rs rc cands rs1
  assume fe: "find_empty g = Some rc"
    and rc: "(cands, rs1) = random_candidates g (fst rc) (snd rc) rs"
  have "set cands = set (candidates g (fst rc) (snd rc))"
    using set_random_candidates[of g "fst rc" "snd rc" rs] rc[symmetric] by simp
  then have nz: "0 \<notin> set cands" using candidates_nonzero by blast
  define z where "z = card (set (empty_cells g) - {rc})"
  have "card (set (empty_cells g)) = Suc z"
    unfolding z_def using fe by (rule card_empty_cells_found)
  with nz show "(Inr (rc, cands, g, rs1), Inl (g, rs))
      \<in> inv_image (less_than <*lex*> less_than <*lex*> less_than) solve_measure"
    by (simp add: z_def[symmetric])
next
  fix rc :: "nat \<times> nat" and candidate rest g and rs :: rng
  define z where "z = card (set (empty_cells g) - {rc})"
  define z' where "z' = card (set (empty_cells (set_cell g rc candidate)))"
  have le: "z' \<le> Suc z"
    unfolding z_def z'_def by (rule card_empty_cells_set_cell_le)
  have eq: "candidate \<noteq> 0 \<Longrightarrow> z' = z"
    unfolding z_def z'_def using empty_cells_set_cell_nonzero[of candidate g rc] by presburger
  show "(Inl (set_cell g rc candidate, rs), Inr (rc, candidate # rest, g, rs))
      \<in> inv_image (less_than <*lex*> less_than <*lex*> less_than) solve_measure"
    using le eq by (auto simp: z_def[symmetric] z'_def[symmetric])
next
  fix rc :: "nat \<times> nat" and candidate rest g and rs :: rng and x y g1 rs1
  assume s: "(x, y) = solve_inplace (set_cell g rc candidate) rs" "x = False" "(g1, rs1) = y"
    and dom: "solve_inplace_try_candidates_dom (Inl (set_cell g rc candidate, rs))"
  have g1: "g1 = set_cell g rc candidate"
    using fail_restores_dom(1)[OF dom, of g1 rs1] s by simp
  have "set (empty_cells g1) - {rc} = set (empty_cells g) - {rc}"
    unfolding g1 by (rule empty_cells_set_cell_minus)
  then show "(Inr (rc, rest, g1, rs1), Inr (rc, candidate # rest, g, rs))
      \<in> inv_image (less_than <*lex*> less_than <*lex*> less_than) solve_measure"
    by auto
qed

section \<open>Enumeration of all solutions\<close>

text \<open>
  The enumeration works on copies, so the model keeps the grid objects in a store: an
  address is an index into the list of live objects, and the constructor allocates a new
  address at the end. A method is only ever called on a live object; on an address outside
  the store the model returns its state unchanged. The set of solutions holds grids by
  value, as the content-based equality and hash of the class make it. The candidates are a
  lazy generator over \<open>1..n\<close>: its filter reads the grid when the loop reaches the digit.
\<close>

type_synonym store = "sudoku list"

function solve_all_helper :: "nat \<Rightarrow> store \<times> sudoku set \<Rightarrow> store \<times> sudoku set"
  and solve_all_loop :: "nat \<Rightarrow> nat \<times> nat \<Rightarrow> nat list \<Rightarrow> store \<times> sudoku set \<Rightarrow> store \<times> sudoku set"
where
  "solve_all_helper self (h, solutions) =
     (if self < length h then
        (case find_empty (h ! self) of
           None \<Rightarrow> (h, insert (h ! self) solutions)
         | Some rc \<Rightarrow> solve_all_loop self rc [1..<Suc (grid_n (h ! self))] (h, solutions))
      else (h, solutions))"
| "solve_all_loop self rc [] st = st"
| "solve_all_loop self rc (candidate # rest) (h, solutions) =
     (if self < length h \<and> is_safe (h ! self) (fst rc) (snd rc) candidate then
        (let copy = length h;
             h1 = h @ [trusted_copy (h ! self)];
             h2 = h1[copy := set_cell (h1 ! copy) rc candidate]
         in solve_all_loop self rc rest (solve_all_helper copy (h2, solutions)))
      else solve_all_loop self rc rest (h, solutions))"
  by pat_completeness auto

lemma solve_all_frame_dom:
  "solve_all_helper_solve_all_loop_dom (Inl (self, st)) \<Longrightarrow>
     prefix (fst st) (fst (solve_all_helper self st))"
  "solve_all_helper_solve_all_loop_dom (Inr (self, rc, ds, st)) \<Longrightarrow>
     prefix (fst st) (fst (solve_all_loop self rc ds st))"
proof (induction self st and self rc ds st rule: solve_all_helper_solve_all_loop.pinduct)
  case (1 self h solutions)
  show ?case
  proof (cases "self < length h")
    case False
    with 1(1) show ?thesis by (simp add: solve_all_helper.psimps)
  next
    case True
    show ?thesis
    proof (cases "find_empty (h ! self)")
      case None
      with True 1(1) show ?thesis by (simp add: solve_all_helper.psimps)
    next
      case (Some rc)
      with True 1(1) 1(2)[OF True Some] show ?thesis by (simp add: solve_all_helper.psimps)
    qed
  qed
next
  case (2 self rc st)
  then show ?case by (simp add: solve_all_loop.psimps)
next
  case (3 self rc candidate rest h solutions)
  show ?case
  proof (cases "self < length h \<and> is_safe (h ! self) (fst rc) (snd rc) candidate")
    case False
    with 3(1) 3(4)[OF False] show ?thesis by (auto simp add: solve_all_loop.psimps)
  next
    case True
    define h2 where "h2 = (h @ [trusted_copy (h ! self)])[length h := set_cell ((h @ [trusted_copy (h ! self)]) ! length h) rc candidate]"
    have a: "prefix (fst (h2, solutions)) (fst (solve_all_helper (length h) (h2, solutions)))"
      using 3(2)[OF True refl refl refl] unfolding h2_def by simp
    have b: "prefix (fst (solve_all_helper (length h) (h2, solutions)))
               (fst (solve_all_loop self rc rest (solve_all_helper (length h) (h2, solutions))))"
      using 3(3)[OF True refl refl refl] unfolding h2_def by simp
    have "prefix h h2" unfolding h2_def by simp
    with a b have "prefix h (fst (solve_all_loop self rc rest (solve_all_helper (length h) (h2, solutions))))"
      by (metis fst_conv prefix_order.order_trans)
    with True 3(1) show ?thesis by (simp add: solve_all_loop.psimps Let_def h2_def)
  qed
qed


lemma empty_cells_trusted_copy [simp]: "empty_cells (trusted_copy g) = empty_cells g"
  by (simp add: empty_cells_def trusted_copy_def)

definition solve_all_measure ::
  "nat \<times> store \<times> sudoku set + nat \<times> (nat \<times> nat) \<times> nat list \<times> store \<times> sudoku set
     \<Rightarrow> nat \<times> nat \<times> nat" where
  "solve_all_measure x =
     (case x of
        Inl (self, h, sols) \<Rightarrow> (card (set (empty_cells (h ! self))), 1, 0)
      | Inr (self, rc, ds, h, sols) \<Rightarrow>
          (card (set (empty_cells (h ! self)) - {rc}) + (if 0 \<in> set ds then 2 else 1),
           0, length ds))"

lemma solve_all_measure_Inl [simp]:
  "solve_all_measure (Inl (self, h, sols)) = (card (set (empty_cells (h ! self))), 1, 0)"
  by (simp add: solve_all_measure_def)

lemma solve_all_measure_Inr [simp]:
  "solve_all_measure (Inr (self, rc, ds, h, sols)) =
     (card (set (empty_cells (h ! self)) - {rc}) + (if 0 \<in> set ds then 2 else 1),
      0, length ds)"
  by (simp add: solve_all_measure_def)

termination solve_all_helper
proof (relation "inv_image (less_than <*lex*> less_than <*lex*> less_than) solve_all_measure")
  show "wf (inv_image (less_than <*lex*> less_than <*lex*> less_than) solve_all_measure)"
    by auto
next
  fix self :: nat and h :: store and solutions :: "sudoku set" and rc
  assume "self < length h" and fe: "find_empty (h ! self) = Some rc"
  define z where "z = card (set (empty_cells (h ! self)) - {rc})"
  have "card (set (empty_cells (h ! self))) = Suc z"
    unfolding z_def using fe by (rule card_empty_cells_found)
  then show "(Inr (self, rc, [1..<Suc (grid_n (h ! self))], h, solutions), Inl (self, h, solutions))
      \<in> inv_image (less_than <*lex*> less_than <*lex*> less_than) solve_all_measure"
    by (simp add: z_def[symmetric])
next
  fix self :: nat and rc :: "nat \<times> nat" and candidate rest and h :: store
    and solutions :: "sudoku set" and copy h1 h2
  assume ok: "self < length h \<and> is_safe (h ! self) (fst rc) (snd rc) candidate"
    and defs: "copy = length h" "h1 = h @ [trusted_copy (h ! self)]"
      "h2 = h1[copy := set_cell (h1 ! copy) rc candidate]"
  have h2: "h2 ! copy = set_cell (trusted_copy (h ! self)) rc candidate"
    using defs by simp
  define z where "z = card (set (empty_cells (h ! self)) - {rc})"
  define z' where "z' = card (set (empty_cells (h2 ! copy)))"
  have le: "z' \<le> Suc z"
    unfolding z_def z'_def h2
    using card_empty_cells_set_cell_le[of "trusted_copy (h ! self)" rc candidate] by simp
  have eq: "candidate \<noteq> 0 \<Longrightarrow> z' = z"
    unfolding z_def z'_def h2
    using empty_cells_set_cell_nonzero[of candidate "trusted_copy (h ! self)" rc] by simp
  show "(Inl (copy, h2, solutions), Inr (self, rc, candidate # rest, h, solutions))
      \<in> inv_image (less_than <*lex*> less_than <*lex*> less_than) solve_all_measure"
    using le eq by (auto simp: z_def[symmetric] z'_def[symmetric])
next
  fix self :: nat and rc :: "nat \<times> nat" and candidate rest and h :: store
    and solutions :: "sudoku set" and copy h1 h2
  assume ok: "self < length h \<and> is_safe (h ! self) (fst rc) (snd rc) candidate"
    and defs: "copy = length h" "h1 = h @ [trusted_copy (h ! self)]"
      "h2 = h1[copy := set_cell (h1 ! copy) rc candidate]"
    and dom: "solve_all_helper_solve_all_loop_dom (Inl (copy, h2, solutions))"
  obtain h3 sols3 where r: "solve_all_helper copy (h2, solutions) = (h3, sols3)"
    by (cases "solve_all_helper copy (h2, solutions)")
  have "prefix h h2" using defs by simp
  moreover have "prefix h2 h3" using solve_all_frame_dom(1)[OF dom] r by simp
  ultimately have "prefix h h3" by (rule prefix_order.order_trans)
  then have "h3 ! self = h ! self" using ok
    by (metis prefix_def nth_append)
  then show "(Inr (self, rc, rest, solve_all_helper copy (h2, solutions)),
        Inr (self, rc, candidate # rest, h, solutions))
      \<in> inv_image (less_than <*lex*> less_than <*lex*> less_than) solve_all_measure"
    unfolding r by auto
next
  fix self :: nat and rc :: "nat \<times> nat" and candidate rest and h :: store
    and solutions :: "sudoku set"
  show "(Inr (self, rc, rest, h, solutions), Inr (self, rc, candidate # rest, h, solutions))
      \<in> inv_image (less_than <*lex*> less_than <*lex*> less_than) solve_all_measure"
    by auto
qed

declare solve_inplace.simps [simp del]
declare solve_all_helper.simps [simp del]

text \<open>
  \<^verbatim>\<open>solve_all\<close> and \<^verbatim>\<open>is_unique\<close> are called on the object at address \<open>self\<close> of the store and
  return their result with the store they leave behind. \<^verbatim>\<open>len(solutions)\<close> is the cardinality
  of the set.
\<close>

definition solve_all :: "nat \<Rightarrow> store \<Rightarrow> sudoku set \<times> store" where
  "solve_all self h = (case solve_all_helper self (h, {}) of (h', s) \<Rightarrow> (s, h'))"

fun is_unique_loop ::
  "nat \<Rightarrow> nat \<times> nat \<Rightarrow> nat list \<Rightarrow> store \<times> sudoku set \<Rightarrow> bool \<times> store \<times> sudoku set" where
  "is_unique_loop self rc [] (h, solutions) = (True, h, solutions)"
| "is_unique_loop self rc (candidate # rest) (h, solutions) =
     (if is_safe (h ! self) (fst rc) (snd rc) candidate then
        (let copy = length h;
             h1 = h @ [trusted_copy (h ! self)];
             h2 = h1[copy := set_cell (h1 ! copy) rc candidate]
         in case solve_all_helper copy (h2, solutions) of
              (h3, solutions3) \<Rightarrow>
                if card solutions3 > 1 then (False, h3, solutions3)
                else is_unique_loop self rc rest (h3, solutions3))
      else is_unique_loop self rc rest (h, solutions))"

definition is_unique_helper :: "nat \<Rightarrow> store \<times> sudoku set \<Rightarrow> bool \<times> store \<times> sudoku set" where
  "is_unique_helper self st =
     (case st of (h, solutions) \<Rightarrow>
        (case find_empty (h ! self) of
           None \<Rightarrow> (card (insert (h ! self) solutions) = 1, h, insert (h ! self) solutions)
         | Some rc \<Rightarrow> is_unique_loop self rc [1..<Suc (grid_n (h ! self))] (h, solutions)))"

definition is_unique :: "nat \<Rightarrow> store \<Rightarrow> bool \<times> store" where
  "is_unique self h = (case is_unique_helper self (h, {}) of (b, h', s) \<Rightarrow> (b, h'))"


section \<open>Generation\<close>

text \<open>
  The rejection loop \<^verbatim>\<open>while True\<close> of a removal step draws a position until it finds a
  non-zero cell. Nothing bounds the number of draws, so the loop is a partial function: the
  value \<open>None\<close> stands for a loop that never ends. \<^verbatim>\<open>np.random.randint(0, n, size=2)\<close> takes
  two draws, the row first.
\<close>

partial_function (option) pick_filled ::
  "nat \<Rightarrow> sudoku \<Rightarrow> rng \<Rightarrow> (error + (nat \<times> nat) \<times> rng) option" where
  "pick_filled m g rs =
     (if m = 0 then Some (Inl NumpyValueError)
      else let row = next_raw rs mod m; col = next_raw (advance rs) mod m; rs' = advance (advance rs)
           in if \<not> (row < length (cells g) \<and> col < length (cells g ! row))
                then Some (Inl IndexError)
              else if cells g ! row ! col \<noteq> 0 then Some (Inr ((row, col), rs'))
              else pick_filled m g rs')"

fun remove_cells :: "nat \<Rightarrow> nat \<Rightarrow> sudoku \<Rightarrow> rng \<Rightarrow> (error + sudoku \<times> rng) option" where
  "remove_cells 0 m g rs = Some (Inr (g, rs))"
| "remove_cells (Suc k) m g rs =
     (case pick_filled m g rs of
        None \<Rightarrow> None
      | Some (Inl e) \<Rightarrow> Some (Inl e)
      | Some (Inr (rc, rs')) \<Rightarrow> remove_cells k m (set_cell g rc 0) rs')"

definition generate ::
  "nat \<Rightarrow> int \<Rightarrow> int list list option \<Rightarrow> rng \<Rightarrow> (error + sudoku \<times> rng) option" where
  "generate m k grid rs =
     (case (case grid of
              None \<Rightarrow> empty m
            | Some data \<Rightarrow>
                (case Sudoku data True of
                   Inl e \<Rightarrow> Inl e
                 | Inr s \<Rightarrow> if find_empty s \<noteq> None then Inl IncompleteSeedGrid else Inr s)) of
        Inl e \<Rightarrow> Some (Inl e)
      | Inr sudoku \<Rightarrow>
          if \<not> (0 \<le> k \<and> k \<le> int (m ^ 2)) then Some (Inl InvalidRemovalCount)
          else (case solve_inplace sudoku rs of
                  (found, solved, rs') \<Rightarrow> remove_cells (nat k) m solved rs'))"

function generate_unique_loop ::
  "int \<Rightarrow> nat \<Rightarrow> int \<Rightarrow> int list list option \<Rightarrow> int \<Rightarrow> rng \<Rightarrow> (error + sudoku \<times> rng) option" where
  "generate_unique_loop attempts m k grid attempt_limit rs =
     (if attempts + 1 \<ge> attempt_limit then Some (Inl GenerationExhausted)
      else (case generate m k grid rs of
              None \<Rightarrow> None
            | Some (Inl e) \<Rightarrow> Some (Inl e)
            | Some (Inr (sudoku, rs')) \<Rightarrow>
                if k = 0 then Some (Inr (sudoku, rs'))
                else (case is_unique 0 [sudoku] of
                        (unique, h) \<Rightarrow>
                          if unique then Some (Inr (h ! 0, rs'))
                          else generate_unique_loop (attempts + 1) m k grid attempt_limit rs')))"
  by pat_completeness auto
termination
  by (relation "measure (\<lambda>(attempts, m, k, grid, attempt_limit, rs). nat (attempt_limit - attempts))") auto

definition generate_unique ::
  "nat \<Rightarrow> int \<Rightarrow> int list list option \<Rightarrow> int \<Rightarrow> rng \<Rightarrow> (error + sudoku \<times> rng) option" where
  "generate_unique m k grid attempt_limit rs = generate_unique_loop 0 m k grid attempt_limit rs"

section \<open>Properties of grids\<close>

text \<open>A grid is complete when no cell holds 0.\<close>

definition complete :: "sudoku \<Rightarrow> bool" where
  "complete g = list_all (list_all (\<lambda>v. v \<noteq> 0)) (cells g)"

text \<open>
  A consistent 4 by 4 puzzle without any completion: the digits 1 and 2 stand in the row,
  3 in the column and 4 in the box of its first empty cell.
\<close>

definition dead_end :: sudoku where
  "dead_end = \<lparr>grid_n = 4, grid_sr = 2,
     cells = [[0, 1, 2, 0], [0, 4, 0, 0], [3, 0, 0, 0], [0, 0, 0, 0]]\<rparr>"

text \<open>
  Predicates on the data handed to the constructor: some cell lies outside \<open>[0, n]\<close> for the
  number \<open>n\<close> of rows; every cell is a value of \<^verbatim>\<open>uint8\<close>; the data is a non-empty square
  matrix; the side passes the square-root check of the constructor. A 4 by 4 puzzle with
  two empty cells serves as an example.
\<close>

definition out_of_range :: "int list list \<Rightarrow> bool" where
  "out_of_range grid = list_ex (list_ex (\<lambda>v. v < 0 \<or> int (length grid) < v)) grid"

definition fits_uint8 :: "int list list \<Rightarrow> bool" where
  "fits_uint8 grid = list_all (list_all (\<lambda>v. 0 \<le> v \<and> v < 256)) grid"

definition square_shape :: "int list list \<Rightarrow> bool" where
  "square_shape grid = (grid \<noteq> [] \<and> list_all (\<lambda>row. length row = length grid) grid)"

definition sr_check :: "nat \<Rightarrow> bool" where
  "sr_check m = (isqrt m * isqrt m = m \<and> isqrt m = unsigned (int (isqrt m)))"

definition two_left :: sudoku where
  "two_left = \<lparr>grid_n = 4, grid_sr = 2,
     cells = [[1, 2, 3, 4], [3, 4, 1, 2], [2, 1, 4, 3], [0, 3, 2, 0]]\<rparr>"

section \<open>The in-place search: complete grids and failure\<close>

lemma complete_find_empty: "complete g \<longleftrightarrow> find_empty g = None"
proof -
  have "complete g \<longleftrightarrow> set (empty_cells g) = {}"
    unfolding complete_def set_empty_cells list_all_iff all_set_conv_all_nth
    by auto
  then show ?thesis by (simp add: find_empty_None)
qed

lemma solve_inplace_fail:
  "solve_inplace g rs = (False, g', rs') \<Longrightarrow> g' = g"
  "try_candidates rc ds g rs = (False, g', rs') \<Longrightarrow> g' = set_cell g rc 0"
proof (induction g rs and rc ds g rs arbitrary: g' rs' and g' rs'
        rule: solve_inplace_try_candidates.induct)
  case (1 g rs)
  show ?case
  proof (cases "find_empty g")
    case None
    with 1 show ?thesis by (simp add: solve_inplace.simps)
  next
    case (Some rc)
    obtain cands rs1 where rc: "random_candidates g (fst rc) (snd rc) rs = (cands, rs1)"
      by (cases "random_candidates g (fst rc) (snd rc) rs")
    from 1(2) Some rc have "try_candidates rc cands g rs1 = (False, g', rs')"
      by (simp add: solve_inplace.simps)
    from 1(1)[OF Some rc[symmetric] this] have "g' = set_cell g rc 0" .
    then show ?thesis using set_cell_same[OF find_empty_Some[OF Some]] by simp
  qed
next
  case (2 rc g rs)
  then show ?case by simp
next
  case (3 rc candidate rest g rs)
  obtain ok g1 rs1 where s: "solve_inplace (set_cell g rc candidate) rs = (ok, g1, rs1)"
    by (cases "solve_inplace (set_cell g rc candidate) rs")
  show ?case
  proof (cases ok)
    case True
    with 3(3) s show ?thesis by simp
  next
    case False
    with 3(3) s have t: "try_candidates rc rest g1 rs1 = (False, g', rs')"
      by simp
    from 3(1) s False have g1: "g1 = set_cell g rc candidate" by simp
    from False have "ok = False" by simp
    from 3(2)[OF s[symmetric] this refl t] have "g' = set_cell g1 rc 0" .
    with g1 show ?thesis by simp
  qed
qed

lemma find_empty_dead_end: "find_empty dead_end = Some (0, 0)"
  by (simp add: find_empty_def empty_cells_def dead_end_def)

lemma candidates_dead_end: "candidates dead_end 0 0 = []"
  by (simp add: candidates_def is_safe_def row_safe_def col_safe_def box_safe_def box_def
      dead_end_def upt_rec)

lemma solve_inplace_dead_end: "solve_inplace dead_end rs = (False, dead_end, rs)"
  by (simp add: solve_inplace.simps find_empty_dead_end random_candidates_def
      candidates_dead_end shuffle_def set_cell_same[OF find_empty_Some[OF find_empty_dead_end]])

lemma is_safe_dead_end:
  "\<not> is_safe dead_end 0 0 (Suc 0)" "\<not> is_safe dead_end 0 0 2"
  "\<not> is_safe dead_end 0 0 3" "\<not> is_safe dead_end 0 0 4"
  by (simp_all add: is_safe_def row_safe_def col_safe_def box_safe_def box_def dead_end_def)

text \<open>
  Claim C8. On a complete grid (no cell is 0) \<^verbatim>\<open>solve_inplace\<close> reports success at once: the
  result is the grid itself, no cell has changed and no random draw has been taken.
\<close>

theorem solve_inplace_complete_grid_unchanged: "complete g \<Longrightarrow> solve_inplace g rs = (True, g, rs)"
  by (simp add: complete_find_empty solve_inplace.simps)

theorem solve_inplace_complete_grid_unchanged_witness:
  "complete \<lparr>grid_n = 1, grid_sr = 1, cells = [[1]]\<rparr> \<and>
   solve_inplace \<lparr>grid_n = 1, grid_sr = 1, cells = [[1]]\<rparr> (\<lambda>i. 0)
     = (True, \<lparr>grid_n = 1, grid_sr = 1, cells = [[1]]\<rparr>, (\<lambda>i. 0))"
proof -
  have c: "complete \<lparr>grid_n = 1, grid_sr = 1, cells = [[1]]\<rparr>"
    by (simp add: complete_def)
  from c solve_inplace_complete_grid_unchanged[OF c] show ?thesis by simp
qed

text \<open>
  Claim C6. When \<^verbatim>\<open>solve_inplace\<close> reports failure, the grid it leaves is the grid it was
  called on: every cell the search wrote has been put back to 0, also when the chosen cell
  had no candidate at all.
\<close>

theorem solve_inplace_failure_restores_grid: "solve_inplace g rs = (False, g', rs') \<Longrightarrow> cells g' = cells g \<and> g' = g"
  using solve_inplace_fail(1) by blast

theorem solve_inplace_failure_restores_grid_witness:
  "solve_inplace dead_end (\<lambda>i. 0) = (False, dead_end, (\<lambda>i. 0)) \<and>
   cells dead_end = cells dead_end \<and> dead_end = dead_end"
  using solve_inplace_failure_restores_grid[OF solve_inplace_dead_end[of "\<lambda>i. 0"]] solve_inplace_dead_end[of "\<lambda>i. 0"]
  by simp

section \<open>Uniqueness test and the retry loop\<close>

text \<open>
  Claim C3 (the code departs from it). \<^verbatim>\<open>is_unique\<close> answers true on the puzzle \<open>dead_end\<close>,
  which passes the validation of the constructor, has its filled cells free of conflicts
  and has no completion: \<^verbatim>\<open>solve_all\<close> returns the empty set on it. The loop over the
  candidates only answers false once two solutions are recorded and answers true when it
  runs out, whether one solution was recorded or none.
\<close>

theorem is_unique_true_without_completion:
  "Sudoku [[0, 1, 2, 0], [0, 4, 0, 0], [3, 0, 0, 0], [0, 0, 0, 0]] True = Inr dead_end \<and>
   fst (is_unique 0 [dead_end]) = True \<and> fst (solve_all 0 [dead_end]) = {}"
proof -
  have a: "Sudoku [[0, 1, 2, 0], [0, 4, 0, 0], [3, 0, 0, 0], [0, 0, 0, 0]] True = Inr dead_end"
    by (simp add: Sudoku_def np_array_def new_sudoku_def isqrt_def unsigned_def dead_end_def
        upt_rec Let_def)
  have n: "grid_n dead_end = 4" by (simp add: dead_end_def)
  have u: "[Suc 0..<5] = [Suc 0, 2, 3, 4]" by (simp add: upt_rec)
  have b: "is_unique 0 [dead_end] = (True, [dead_end])"
    by (simp add: is_unique_def is_unique_helper_def find_empty_dead_end n u is_safe_dead_end)
  have c: "solve_all 0 [dead_end] = ({}, [dead_end])"
    by (simp add: solve_all_def solve_all_helper.simps find_empty_dead_end n u is_safe_dead_end)
  from a b c show ?thesis by simp
qed

text \<open>
  Claim C4 (the code departs from it). With \<^verbatim>\<open>attempt_limit = 1\<close> the loop of
  \<^verbatim>\<open>generate_unique\<close> raises before its first attempt, whatever the size, the number of
  cells to remove, the seed grid and the random draws: the counter is incremented and
  compared with the limit before \<^verbatim>\<open>generate\<close> is called.
\<close>

theorem generate_unique_limit_one_exhausted: "generate_unique m k grid 1 rs = Some (Inl GenerationExhausted)"
  by (simp add: generate_unique_def)

section \<open>Validated construction\<close>

lemma unsigned_fits: "0 \<le> v \<Longrightarrow> v < 256 \<Longrightarrow> unsigned v = nat v"
  by (simp add: unsigned_def)

lemma map_unsigned_fits:
  "fits_uint8 grid \<Longrightarrow> map (map unsigned) grid = map (map nat) grid"
  by (auto simp: fits_uint8_def list_all_iff unsigned_fits)

lemma in_range_fits:
  "fits_uint8 grid \<Longrightarrow>
     list_all (list_all (\<lambda>v. 0 \<le> v \<and> v \<le> m)) (map (map nat) grid)
       \<longleftrightarrow> \<not> list_ex (list_ex (\<lambda>v. v < 0 \<or> int m < v)) grid"
  by (fastforce simp: fits_uint8_def list_all_iff list_ex_iff)

lemma Sudoku_square:
  assumes "square_shape grid"
  shows "Sudoku grid True = new_sudoku \<lparr>shape = [length grid, length grid], elems = grid\<rparr> True"
proof -
  from assms obtain row rest where g: "grid = row # rest" by (cases grid) (auto simp: square_shape_def)
  with assms have "length (hd grid) = length grid" by (simp add: square_shape_def)
  with assms show ?thesis by (simp add: Sudoku_def np_array_def square_shape_def)
qed

lemma Sudoku_not_square:
  assumes "\<not> square_shape grid"
  shows "Sudoku grid True = Inl InvalidShape \<or> Sudoku grid True = Inl NumpyValueError"
proof (cases "grid = []")
  case True
  then show ?thesis by (simp add: Sudoku_def np_array_def new_sudoku_def)
next
  case False
  show ?thesis
  proof (cases "list_all (\<lambda>row. length row = length (hd grid)) grid")
    case False
    with \<open>grid \<noteq> []\<close> show ?thesis by (simp add: Sudoku_def np_array_def)
  next
    case True
    have "length (hd grid) \<noteq> length grid"
    proof
      assume "length (hd grid) = length grid"
      with True False have "square_shape grid" by (simp add: square_shape_def)
      with assms show False by simp
    qed
    with True False show ?thesis
      by (auto simp add: Sudoku_def np_array_def new_sudoku_def Let_def)
  qed
qed

lemma isqrt_Suc_0: "isqrt (Suc 0) = Suc 0" by (simp add: isqrt_def)

text \<open>
  Claim C5, as amended. For data whose cells are all values of \<^verbatim>\<open>uint8\<close> (0 to 255), the
  validated constructor fails with \<open>ValueOutOfRange\<close> exactly when the data is a non-empty
  square matrix whose side passes the square-root check and some cell lies outside
  \<open>[0, n]\<close>; when the shape and square-root checks pass and every cell lies in \<open>[0, n]\<close>,
  construction succeeds and stores exactly the supplied values.
\<close>

theorem Sudoku_value_out_of_range_iff:
  assumes "fits_uint8 grid"
  shows "(Sudoku grid True = Inl ValueOutOfRange
          \<longleftrightarrow> square_shape grid \<and> sr_check (length grid) \<and> out_of_range grid)
       \<and> (square_shape grid \<and> sr_check (length grid) \<and> \<not> out_of_range grid
          \<longrightarrow> (\<exists>g. Sudoku grid True = Inr g \<and> cells g = map (map nat) grid))"
proof (cases "square_shape grid")
  case False
  with Sudoku_not_square[OF False] show ?thesis by auto
next
  case True
  note sq = Sudoku_square[OF True]
  show ?thesis
  proof (cases "sr_check (length grid)")
    case False
    then have "Sudoku grid True = Inl NotPerfectSquare"
      unfolding sq by (auto simp add: new_sudoku_def Let_def sr_check_def)
    with False show ?thesis by simp
  next
    case sr: True
    show ?thesis
    proof (cases "out_of_range grid")
      case True
      then have "Sudoku grid True = Inl ValueOutOfRange"
        unfolding sq using sr in_range_fits[OF assms, of "length grid"]
        by (simp add: new_sudoku_def Let_def sr_check_def out_of_range_def
            map_unsigned_fits[OF assms])
      with True sr \<open>square_shape grid\<close> show ?thesis by simp
    next
      case False
      then have "Sudoku grid True = Inr \<lparr>grid_n = unsigned (int (length grid)),
          grid_sr = unsigned (int (isqrt (length grid))), cells = map (map nat) grid\<rparr>"
        unfolding sq using sr in_range_fits[OF assms, of "length grid"]
        by (simp add: new_sudoku_def Let_def sr_check_def out_of_range_def
            map_unsigned_fits[OF assms])
      with False show ?thesis by simp
    qed
  qed
qed

theorem Sudoku_value_out_of_range_iff_witness:
  "fits_uint8 [[5]] \<and> Sudoku [[5]] True = Inl ValueOutOfRange
   \<and> fits_uint8 [[1]] \<and> (\<exists>g. Sudoku [[1]] True = Inr g \<and> cells g = [[1]])"
proof -
  have a: "fits_uint8 [[5]]" and b: "fits_uint8 [[1]]" by (simp_all add: fits_uint8_def)
  have c: "square_shape [[5]] \<and> sr_check (length [[5::int]]) \<and> out_of_range [[5]]"
    by (simp add: square_shape_def sr_check_def out_of_range_def isqrt_Suc_0 unsigned_def)
  have d: "square_shape [[1]] \<and> sr_check (length [[1::int]]) \<and> \<not> out_of_range [[1]]"
    by (simp add: square_shape_def sr_check_def out_of_range_def isqrt_Suc_0 unsigned_def)
  from Sudoku_value_out_of_range_iff[OF a] c have "Sudoku [[5]] True = Inl ValueOutOfRange" by blast
  moreover from Sudoku_value_out_of_range_iff[OF b] d have "\<exists>g. Sudoku [[1]] True = Inr g \<and> cells g = [[1]]" by simp
  ultimately show ?thesis using a b by simp
qed

text \<open>
  The claim as stated fails twice. The 1 by 2 matrix \<open>[[7, 7]]\<close> has cells outside \<open>[0, 1]\<close>
  and is refused for its shape, which is checked first. The 1 by 1 integer matrix
  \<open>[[257]]\<close> has its cell outside \<open>[0, 1]\<close> and is accepted: the conversion to \<^verbatim>\<open>uint8\<close> comes
  before the range check and stores 1.
\<close>

theorem Sudoku_value_check_counterexample:
  "out_of_range [[7, 7]] \<and> Sudoku [[7, 7]] True = Inl InvalidShape
   \<and> out_of_range [[257]]
   \<and> Sudoku [[257]] True = Inr \<lparr>grid_n = 1, grid_sr = 1, cells = [[1]]\<rparr>"
  by (simp add: out_of_range_def Sudoku_def np_array_def new_sudoku_def isqrt_def unsigned_def)

section \<open>The enumeration only allocates\<close>

lemma solve_all_frame:
  "prefix (fst st) (fst (solve_all_helper self st))"
  "prefix (fst st) (fst (solve_all_loop self rc ds st))"
proof (induction self st and self rc ds st rule: solve_all_helper_solve_all_loop.induct)
  case (1 self h solutions)
  show ?case
  proof (cases "self < length h")
    case False
    then show ?thesis by (simp add: solve_all_helper.simps)
  next
    case True
    show ?thesis
    proof (cases "find_empty (h ! self)")
      case None
      with True show ?thesis by (simp add: solve_all_helper.simps)
    next
      case (Some rc)
      with True 1[OF True Some] show ?thesis by (simp add: solve_all_helper.simps)
    qed
  qed
next
  case (2 self rc st)
  then show ?case by simp
next
  case (3 self rc candidate rest h solutions)
  show ?case
  proof (cases "self < length h \<and> is_safe (h ! self) (fst rc) (snd rc) candidate")
    case False
    with 3(3)[OF False] show ?thesis by auto
  next
    case True
    define h2 where "h2 = h @ [set_cell (trusted_copy (h ! self)) rc candidate]"
    have a: "prefix (fst (h2, solutions)) (fst (solve_all_helper (length h) (h2, solutions)))"
      using 3(1)[OF True refl refl refl] unfolding h2_def by simp
    have b: "prefix (fst (solve_all_helper (length h) (h2, solutions)))
               (fst (solve_all_loop self rc rest (solve_all_helper (length h) (h2, solutions))))"
      using 3(2)[OF True refl refl refl] unfolding h2_def by simp
    have "prefix h h2" unfolding h2_def by simp
    with a b have "prefix h (fst (solve_all_loop self rc rest (solve_all_helper (length h) (h2, solutions))))"
      by (metis fst_conv prefix_order.order_trans)
    with True show ?thesis by (simp add: Let_def h2_def)
  qed
qed

lemma is_unique_loop_frame:
  "prefix (fst st) (fst (snd (is_unique_loop self rc ds st)))"
proof (induction ds arbitrary: st)
  case Nil
  then show ?case by (cases st) simp
next
  case (Cons d ds)
  obtain h sols where st: "st = (h, sols)" by (cases st)
  show ?case
  proof (cases "is_safe (h ! self) (fst rc) (snd rc) d")
    case False
    with Cons[of "(h, sols)"] st show ?thesis by simp
  next
    case True
    define h2 where "h2 = h @ [set_cell (trusted_copy (h ! self)) rc d]"
    obtain h3 sols3 where r: "solve_all_helper (length h) (h2, sols) = (h3, sols3)"
      by (cases "solve_all_helper (length h) (h2, sols)")
    have p: "prefix h h3"
      using solve_all_frame(1)[of "(h2, sols)" "length h"] r
      by (metis append_prefixD fst_conv h2_def)
    have "prefix h3 (fst (snd (is_unique_loop self rc ds (h3, sols3))))"
      using Cons[of "(h3, sols3)"] by simp
    with p have "prefix h (fst (snd (is_unique_loop self rc ds (h3, sols3))))"
      by (rule prefix_order.order_trans)
    with True st r p show ?thesis by (simp add: Let_def h2_def)
  qed
qed

lemma prefix_nth: "prefix h h' \<Longrightarrow> a < length h \<Longrightarrow> h' ! a = h ! a"
  by (auto simp: prefix_def nth_append)

lemma solve_all_prefix: "prefix h (snd (solve_all self h))"
proof -
  obtain h' s where r: "solve_all_helper self (h, {}) = (h', s)"
    by (cases "solve_all_helper self (h, {})")
  with solve_all_frame(1)[of "(h, {})" self] have "prefix h h'" by simp
  with r show ?thesis by (simp add: solve_all_def)
qed

lemma is_unique_prefix: "prefix h (snd (is_unique self h))"
proof (cases "find_empty (h ! self)")
  case None
  then show ?thesis by (simp add: is_unique_def is_unique_helper_def)
next
  case (Some rc)
  obtain b h' s where r:
    "is_unique_loop self rc [1..<Suc (grid_n (h ! self))] (h, {}) = (b, h', s)"
    by (cases "is_unique_loop self rc [1..<Suc (grid_n (h ! self))] (h, {})")
  with is_unique_loop_frame[of "(h, {})" self rc "[1..<Suc (grid_n (h ! self))]"]
  have "prefix h h'" by simp
  with r Some show ?thesis by (simp add: is_unique_def is_unique_helper_def)
qed

text \<open>
  Claim C10. \<^verbatim>\<open>solve_all\<close> and \<^verbatim>\<open>is_unique\<close> leave every object that was live before the call
  as it was, the grid they are called on included: the candidates are written into copies
  allocated during the call.
\<close>

theorem enumeration_leaves_store_objects_unchanged:
  "a < length h \<Longrightarrow>
     snd (solve_all self h) ! a = h ! a \<and> snd (is_unique self h) ! a = h ! a"
  using solve_all_prefix[of h self] is_unique_prefix[of h self] by (simp add: prefix_nth)

theorem enumeration_leaves_store_objects_unchanged_witness:
  "(0::nat) < length [two_left]
   \<and> snd (solve_all 0 [two_left]) ! 0 = [two_left] ! 0
   \<and> snd (is_unique 0 [two_left]) ! 0 = [two_left] ! 0"
  using enumeration_leaves_store_objects_unchanged[of 0 "[two_left]" 0] by simp

section \<open>Well-formed grids and the rules of the game\<close>

text \<open>
  A grid is well formed when it satisfies the invariants the constructor checks, with a side
  that fits \<^verbatim>\<open>uint8\<close>. Its units are its rows, its columns and the boxes of its cells, read
  with the \<^verbatim>\<open>box\<close> method of the class. The filled cells are free of conflicts when no unit
  repeats a non-zero digit; a grid is solved when every unit holds each digit from 1 to
  \<open>n\<close> exactly once. A grid \<open>h\<close> extends \<open>g\<close> when it has the same dimensions and agrees with
  \<open>g\<close> on the non-zero cells of \<open>g\<close>; the completions of \<open>g\<close> are the solved grids that extend
  it.
\<close>

definition well_formed :: "sudoku \<Rightarrow> bool" where
  "well_formed g =
     (grid_n g < 256 \<and> grid_sr g * grid_sr g = grid_n g \<and> length (cells g) = grid_n g
      \<and> list_all (\<lambda>row. length row = grid_n g) (cells g)
      \<and> list_all (list_all (\<lambda>v. v \<le> grid_n g)) (cells g))"

definition column :: "sudoku \<Rightarrow> nat \<Rightarrow> nat list" where
  "column g c = map (\<lambda>rw. rw ! c) (cells g)"

definition units :: "sudoku \<Rightarrow> nat list list" where
  "units g =
     cells g @ map (column g) [0..<grid_n g]
     @ concat (map (\<lambda>r. map (\<lambda>c. concat (box g r c)) [0..<grid_n g]) [0..<grid_n g])"

definition no_conflict :: "sudoku \<Rightarrow> bool" where
  "no_conflict g = list_all (\<lambda>u. distinct (filter (\<lambda>v. v \<noteq> 0) u)) (units g)"

definition each_once :: "nat \<Rightarrow> nat list \<Rightarrow> bool" where
  "each_once m u = list_all (\<lambda>d. count_list u d = 1) [1..<Suc m]"

definition solved :: "sudoku \<Rightarrow> bool" where
  "solved g = (well_formed g \<and> list_all (each_once (grid_n g)) (units g))"

definition valid :: "sudoku \<Rightarrow> bool" where
  "valid g = (well_formed g \<and> no_conflict g)"

definition extends :: "sudoku \<Rightarrow> sudoku \<Rightarrow> bool" where
  "extends g h =
     (grid_n h = grid_n g \<and> grid_sr h = grid_sr g
      \<and> list_all2 (list_all2 (\<lambda>a b. a = 0 \<or> b = a)) (cells g) (cells h))"

definition completions :: "sudoku \<Rightarrow> sudoku set" where
  "completions g = {h. solved h \<and> extends g h}"

text \<open>
  The same notions by position. Two positions are peers when they share a row, a column or
  a box; the unit lists of a well-formed grid are the cell values along the rows, the
  columns and the boxes.
\<close>

definition cellp :: "sudoku \<Rightarrow> nat \<times> nat \<Rightarrow> nat" where
  "cellp g p = cells g ! fst p ! snd p"

definition peer :: "nat \<Rightarrow> nat \<times> nat \<Rightarrow> nat \<times> nat \<Rightarrow> bool" where
  "peer s p q =
     (fst p = fst q \<or> snd p = snd q \<or> (fst p div s = fst q div s \<and> snd p div s = snd q div s))"

definition in_grid :: "nat \<Rightarrow> nat \<times> nat \<Rightarrow> bool" where
  "in_grid m p = (fst p < m \<and> snd p < m)"

definition row_positions :: "nat \<Rightarrow> nat \<Rightarrow> (nat \<times> nat) list" where
  "row_positions m r = map (Pair r) [0..<m]"

definition col_positions :: "nat \<Rightarrow> nat \<Rightarrow> (nat \<times> nat) list" where
  "col_positions m c = map (\<lambda>r. (r, c)) [0..<m]"

definition box_positions :: "nat \<Rightarrow> nat \<Rightarrow> nat \<Rightarrow> (nat \<times> nat) list" where
  "box_positions s r c =
     map (\<lambda>(i, j). (r div s * s + i, c div s * s + j)) (List.product [0..<s] [0..<s])"

lemma set_row_positions: "set (row_positions m r) = {(r, c') | c'. c' < m}"
  by (auto simp: row_positions_def)

lemma set_col_positions: "set (col_positions m c) = {(r', c) | r'. r' < m}"
  by (auto simp: col_positions_def)

lemma div_block: "0 < s \<Longrightarrow> (x div s = a) \<longleftrightarrow> (\<exists>i<s. x = a * s + i)" for s :: nat
proof
  assume s: "0 < s" and "x div s = a"
  then have "x = a * s + x mod s" by (metis div_mult_mod_eq)
  moreover have "x mod s < s" using s by simp
  ultimately show "\<exists>i<s. x = a * s + i" by blast
next
  assume s: "0 < s" and "\<exists>i<s. x = a * s + i"
  then show "x div s = a" by auto
qed

lemma set_box_positions:
  assumes "0 < s"
  shows "set (box_positions s r c) = {(r', c'). r' div s = r div s \<and> c' div s = c div s}"
proof -
  have "set (box_positions s r c) = {(r div s * s + i, c div s * s + j) | i j. i < s \<and> j < s}"
    by (force simp: box_positions_def)
  also have "\<dots> = {(r', c'). r' div s = r div s \<and> c' div s = c div s}"
    using div_block[OF assms] by auto
  finally show ?thesis .
qed

lemma wf_dims:
  assumes "well_formed g"
  shows "length (cells g) = grid_n g" "r < grid_n g \<Longrightarrow> length (cells g ! r) = grid_n g"
    "grid_sr g * grid_sr g = grid_n g" "grid_n g < 256"
  using assms by (auto simp: well_formed_def list_all_iff)

lemma row_unit:
  assumes "well_formed g" "r < grid_n g"
  shows "cells g ! r = map (cellp g) (row_positions (grid_n g) r)"
proof -
  have "cells g ! r = map (\<lambda>c. cells g ! r ! c) [0..<length (cells g ! r)]"
    by (simp add: map_nth)
  then show ?thesis using wf_dims(2)[OF assms]
    by (simp add: row_positions_def cellp_def comp_def)
qed

lemma column_unit:
  assumes "well_formed g"
  shows "column g c = map (cellp g) (col_positions (grid_n g) c)"
proof -
  have "map (\<lambda>rw. rw ! c) (cells g) = map (\<lambda>r. cells g ! r ! c) [0..<length (cells g)]"
    by (rule nth_equalityI) simp_all
  then show ?thesis using wf_dims(1)[OF assms]
    by (simp add: column_def col_positions_def cellp_def comp_def)
qed

lemma take_drop_map_nth:
  "a + k \<le> length xs \<Longrightarrow> take k (drop a xs) = map (\<lambda>i. xs ! (a + i)) [0..<k]"
  by (rule nth_equalityI) simp_all

lemma block_bound:
  fixes s :: nat
  assumes "x < s * s"
  shows "x div s * s + s \<le> s * s"
proof -
  have "0 < s" using assms by (cases s) auto
  have "x div s < s" using assms \<open>0 < s\<close> by (simp add: less_mult_imp_div_less)
  then have "Suc (x div s) \<le> s" by simp
  then have "Suc (x div s) * s \<le> s * s" by (rule mult_le_mono1)
  then show ?thesis by simp
qed

lemma box_unit:
  assumes wf: "well_formed g" and r: "r < grid_n g" and c: "c < grid_n g"
  shows "concat (box g r c) = map (cellp g) (box_positions (grid_sr g) r c)"
proof -
  define s where "s = grid_sr g"
  define r0 where "r0 = r div s * s"
  define c0 where "c0 = c div s * s"
  have n: "grid_n g = s * s" using wf_dims(3)[OF wf] by (simp add: s_def)
  have rb: "r0 + s \<le> length (cells g)"
    using block_bound[of r s] r n wf_dims(1)[OF wf] by (simp add: r0_def)
  have cb: "c0 + s \<le> grid_n g"
    using block_bound[of c s] c n by (simp add: c0_def)
  have rows: "take s (drop r0 (cells g)) = map (\<lambda>i. cells g ! (r0 + i)) [0..<s]"
    using rb by (rule take_drop_map_nth)
  have inner: "take s (drop c0 (cells g ! (r0 + i))) = map (\<lambda>j. cells g ! (r0 + i) ! (c0 + j)) [0..<s]"
    if "i < s" for i
  proof -
    have "r0 + i < grid_n g" using that rb wf_dims(1)[OF wf] by simp
    then have "length (cells g ! (r0 + i)) = grid_n g" by (rule wf_dims(2)[OF wf])
    with cb show ?thesis by (intro take_drop_map_nth) simp
  qed
  have "box g r c = map (\<lambda>i. map (\<lambda>j. cells g ! (r0 + i) ! (c0 + j)) [0..<s]) [0..<s]"
    unfolding box_def Let_def s_def[symmetric] r0_def[symmetric] c0_def[symmetric] rows
    using inner by simp
  then show ?thesis
    by (simp add: box_positions_def List.product_concat_map map_concat comp_def cellp_def
        s_def[symmetric] r0_def[symmetric] c0_def[symmetric])
qed

lemma is_safe_peers:
  assumes wf: "well_formed g" and r: "r < grid_n g" and c: "c < grid_n g"
  shows "is_safe g r c d \<longleftrightarrow>
     (\<forall>q. in_grid (grid_n g) q \<and> peer (grid_sr g) (r, c) q \<longrightarrow> cellp g q \<noteq> d)"
proof -
  have s: "0 < grid_sr g" using wf_dims(3)[OF wf] r by (cases "grid_sr g") auto
  have n: "grid_n g = grid_sr g * grid_sr g" using wf_dims(3)[OF wf] by simp
  have boxin: "in_grid (grid_n g) q" if "q \<in> set (box_positions (grid_sr g) r c)" for q
  proof -
    obtain r' c' where q: "q = (r', c')" by (cases q)
    from that have d: "r' div grid_sr g = r div grid_sr g" "c' div grid_sr g = c div grid_sr g"
      unfolding set_box_positions[OF s] q by auto
    have "r div grid_sr g < grid_sr g" "c div grid_sr g < grid_sr g"
      using r c n s by (simp_all add: less_mult_imp_div_less)
    with d have "r' div grid_sr g < grid_sr g" "c' div grid_sr g < grid_sr g" by simp_all
    then have "r' < grid_sr g * grid_sr g" "c' < grid_sr g * grid_sr g"
      using s by (simp_all add: div_less_iff_less_mult mult.commute)
    then show ?thesis using n by (simp add: in_grid_def q)
  qed
  have "is_safe g r c d \<longleftrightarrow>
      d \<notin> cellp g ` (set (row_positions (grid_n g) r) \<union> set (col_positions (grid_n g) c)
        \<union> set (box_positions (grid_sr g) r c))"
    unfolding is_safe_def row_safe_def col_safe_def box_safe_def
      row_unit[OF wf r] column_unit[OF wf, unfolded column_def] box_unit[OF wf r c]
    by (auto simp: image_Un)
  also have "set (row_positions (grid_n g) r) \<union> set (col_positions (grid_n g) c)
        \<union> set (box_positions (grid_sr g) r c)
      = {q. in_grid (grid_n g) q \<and> peer (grid_sr g) (r, c) q}"
    (is "?A = ?B")
  proof
    show "?A \<subseteq> ?B"
      using boxin r c
      by (auto simp: set_row_positions set_col_positions set_box_positions[OF s] in_grid_def peer_def)
    show "?B \<subseteq> ?A"
      by (auto simp: set_row_positions set_col_positions set_box_positions[OF s] in_grid_def peer_def)
  qed
  finally show ?thesis by auto
qed

section \<open>Units by position\<close>

definition unit_positions :: "nat \<Rightarrow> nat \<Rightarrow> (nat \<times> nat) list list" where
  "unit_positions m s =
     map (row_positions m) [0..<m] @ map (col_positions m) [0..<m]
     @ concat (map (\<lambda>r. map (box_positions s r) [0..<m]) [0..<m])"

definition ok :: "sudoku \<Rightarrow> bool" where
  "ok g = (\<forall>p q. in_grid (grid_n g) p \<and> in_grid (grid_n g) q \<and> p \<noteq> q
             \<and> peer (grid_sr g) p q \<and> cellp g p \<noteq> 0 \<longrightarrow> cellp g p \<noteq> cellp g q)"

lemma units_positions:
  assumes wf: "well_formed g"
  shows "units g = map (map (cellp g)) (unit_positions (grid_n g) (grid_sr g))"
proof -
  have "cells g = map (\<lambda>r. cells g ! r) [0..<grid_n g]"
    using wf_dims(1)[OF wf] by (metis map_nth)
  also have "\<dots> = map (\<lambda>r. map (cellp g) (row_positions (grid_n g) r)) [0..<grid_n g]"
    using row_unit[OF wf] by simp
  finally have rows: "cells g = map (\<lambda>r. map (cellp g) (row_positions (grid_n g) r)) [0..<grid_n g]" .
  have cols: "map (column g) [0..<grid_n g]
      = map (\<lambda>c. map (cellp g) (col_positions (grid_n g) c)) [0..<grid_n g]"
    using column_unit[OF wf] by simp
  have boxes: "map (\<lambda>r. map (\<lambda>c. concat (box g r c)) [0..<grid_n g]) [0..<grid_n g]
      = map (\<lambda>r. map (\<lambda>c. map (cellp g) (box_positions (grid_sr g) r c)) [0..<grid_n g]) [0..<grid_n g]"
    using box_unit[OF wf] by simp
  show ?thesis
    unfolding units_def unit_positions_def boxes cols
    by (subst rows) (simp add: map_concat comp_def)
qed

lemma sr_pos: "well_formed g \<Longrightarrow> in_grid (grid_n g) p \<Longrightarrow> 0 < grid_sr g"
  by (cases "grid_sr g") (auto simp: well_formed_def in_grid_def)

lemma box_positions_in_grid:
  assumes s: "0 < s" and r: "r < s * s" and c: "c < s * s"
    and q: "q \<in> set (box_positions s r c)"
  shows "in_grid (s * s) q"
proof -
  obtain r' c' where qq: "q = (r', c')" by (cases q)
  from q have d: "r' div s = r div s" "c' div s = c div s"
    unfolding set_box_positions[OF s] qq by auto
  have "r div s < s" "c div s < s"
    using r c s by (simp_all add: less_mult_imp_div_less)
  with d have "r' div s < s" "c' div s < s" by simp_all
  then have "r' < s * s" "c' < s * s"
    using s by (simp_all add: div_less_iff_less_mult mult.commute)
  then show ?thesis by (simp add: in_grid_def qq)
qed

lemma box_positions_unit:
  assumes "r < m" "c < m"
  shows "box_positions s r c \<in> set (unit_positions m s)"
proof -
  have "\<exists>x\<in>{0..<m}. box_positions s r c \<in> box_positions s x ` {0..<m}"
    using assms by (intro bexI[of _ r] imageI) simp_all
  then show ?thesis by (simp add: unit_positions_def)
qed

lemma distinct_box_positions: "distinct (box_positions s r c)"
  unfolding box_positions_def
  by (auto simp: distinct_map distinct_product inj_on_def)

lemma unit_positions_props:
  assumes ps: "ps \<in> set (unit_positions (s * s) s)"
  shows "distinct ps" "length ps = s * s" "\<forall>p\<in>set ps. in_grid (s * s) p"
proof -
  from ps consider r where "r < s * s" "ps = row_positions (s * s) r"
    | c where "c < s * s" "ps = col_positions (s * s) c"
    | r c where "r < s * s" "c < s * s" "ps = box_positions s r c"
    by (auto simp: unit_positions_def)
  then have "distinct ps \<and> length ps = s * s \<and> (\<forall>p\<in>set ps. in_grid (s * s) p)"
  proof cases
    case 1
    then show ?thesis
      by (auto simp: row_positions_def distinct_map inj_on_def in_grid_def)
  next
    case 2
    then show ?thesis
      by (auto simp: col_positions_def distinct_map inj_on_def in_grid_def)
  next
    case 3
    then have "0 < s" by (cases s) auto
    with 3 show ?thesis
      using box_positions_in_grid[of s r c] distinct_box_positions[of s r c]
      by (auto simp: box_positions_def)
  qed
  then show "distinct ps" "length ps = s * s" "\<forall>p\<in>set ps. in_grid (s * s) p" by auto
qed

lemma peer_unit:
  assumes s: "0 < s" and p: "in_grid (s * s) p" and q: "in_grid (s * s) q"
  shows "peer s p q \<longleftrightarrow> (\<exists>ps\<in>set (unit_positions (s * s) s). p \<in> set ps \<and> q \<in> set ps)"
proof
  assume "peer s p q"
  then consider "fst p = fst q" | "snd p = snd q"
    | "fst p div s = fst q div s \<and> snd p div s = snd q div s"
    by (auto simp: peer_def)
  then show "\<exists>ps\<in>set (unit_positions (s * s) s). p \<in> set ps \<and> q \<in> set ps"
  proof cases
    case 1
    have "row_positions (s * s) (fst p) \<in> set (unit_positions (s * s) s)"
      using p by (simp add: unit_positions_def in_grid_def)
    moreover have "p \<in> set (row_positions (s * s) (fst p))" "q \<in> set (row_positions (s * s) (fst p))"
      using p q 1 by (cases p; cases q; simp add: set_row_positions in_grid_def)+
    ultimately show ?thesis by blast
  next
    case 2
    have "col_positions (s * s) (snd p) \<in> set (unit_positions (s * s) s)"
      using p by (simp add: unit_positions_def in_grid_def)
    moreover have "p \<in> set (col_positions (s * s) (snd p))" "q \<in> set (col_positions (s * s) (snd p))"
      using p q 2 by (cases p; cases q; simp add: set_col_positions in_grid_def)+
    ultimately show ?thesis by blast
  next
    case 3
    have "box_positions s (fst p) (snd p) \<in> set (unit_positions (s * s) s)"
      using p by (intro box_positions_unit) (simp_all add: in_grid_def)
    moreover have "p \<in> set (box_positions s (fst p) (snd p))" "q \<in> set (box_positions s (fst p) (snd p))"
      using 3 by (cases p; cases q; simp add: set_box_positions[OF s])+
    ultimately show ?thesis by blast
  qed
next
  assume "\<exists>ps\<in>set (unit_positions (s * s) s). p \<in> set ps \<and> q \<in> set ps"
  then obtain ps where ps: "ps \<in> set (unit_positions (s * s) s)" "p \<in> set ps" "q \<in> set ps"
    by blast
  from ps(1) consider r where "ps = row_positions (s * s) r"
    | c where "ps = col_positions (s * s) c"
    | r c where "ps = box_positions s r c"
    by (auto simp: unit_positions_def)
  then show "peer s p q"
  proof cases
    case 1
    with ps show ?thesis by (auto simp: set_row_positions peer_def)
  next
    case 2
    with ps show ?thesis by (auto simp: set_col_positions peer_def)
  next
    case 3
    with ps show ?thesis by (auto simp: set_box_positions[OF s] peer_def)
  qed
qed

lemma distinct_filter_map:
  "distinct ps \<Longrightarrow> distinct (filter P (map f ps)) \<longleftrightarrow> inj_on f {p \<in> set ps. P (f p)}"
  by (simp add: filter_map distinct_map comp_def)

lemma ok_units:
  assumes wf: "well_formed g"
  shows "ok g \<longleftrightarrow>
     (\<forall>ps\<in>set (unit_positions (grid_n g) (grid_sr g)). inj_on (cellp g) {p \<in> set ps. cellp g p \<noteq> 0})"
proof -
  define s where "s = grid_sr g"
  have n: "grid_n g = s * s" using wf_dims(3)[OF wf] by (simp add: s_def)
  show ?thesis unfolding s_def[symmetric] n
  proof
    assume ok: "ok g"
    show "\<forall>ps\<in>set (unit_positions (s * s) s). inj_on (cellp g) {p \<in> set ps. cellp g p \<noteq> 0}"
    proof (intro ballI inj_onI)
      fix ps p q
      assume ps: "ps \<in> set (unit_positions (s * s) s)"
        and p: "p \<in> {p \<in> set ps. cellp g p \<noteq> 0}" and q: "q \<in> {p \<in> set ps. cellp g p \<noteq> 0}"
        and eq: "cellp g p = cellp g q"
      have ip: "in_grid (s * s) p" and iq: "in_grid (s * s) q"
        using unit_positions_props(3)[OF ps] p q by auto
      then have s: "0 < s" by (cases s) (auto simp: in_grid_def)
      have "peer s p q" using peer_unit[OF s ip iq] ps p q by blast
      with ok ip iq p eq show "p = q"
        unfolding ok_def s_def[symmetric] n by blast
    qed
  next
    assume inj: "\<forall>ps\<in>set (unit_positions (s * s) s). inj_on (cellp g) {p \<in> set ps. cellp g p \<noteq> 0}"
    show "ok g" unfolding ok_def s_def[symmetric] n
    proof (intro allI impI)
      fix p q
      assume a: "in_grid (s * s) p \<and> in_grid (s * s) q \<and> p \<noteq> q \<and> peer s p q \<and> cellp g p \<noteq> 0"
      then have s: "0 < s" by (cases s) (auto simp: in_grid_def)
      from a peer_unit[OF s, of p q] obtain ps where
        ps: "ps \<in> set (unit_positions (s * s) s)" "p \<in> set ps" "q \<in> set ps" by blast
      show "cellp g p \<noteq> cellp g q"
      proof
        assume eq: "cellp g p = cellp g q"
        with a ps have "p \<in> {p \<in> set ps. cellp g p \<noteq> 0}" "q \<in> {p \<in> set ps. cellp g p \<noteq> 0}"
          by auto
        with inj ps(1) eq have "p = q" by (meson inj_onD)
        with a show False by simp
      qed
    qed
  qed
qed

lemma no_conflict_ok:
  assumes wf: "well_formed g"
  shows "no_conflict g \<longleftrightarrow> ok g"
proof -
  have n: "grid_n g = grid_sr g * grid_sr g" using wf_dims(3)[OF wf] by simp
  have "no_conflict g \<longleftrightarrow>
      (\<forall>ps\<in>set (unit_positions (grid_n g) (grid_sr g)).
          distinct (filter (\<lambda>v. v \<noteq> 0) (map (cellp g) ps)))"
    by (simp add: no_conflict_def units_positions[OF wf] list_all_iff)
  also have "\<dots> \<longleftrightarrow>
      (\<forall>ps\<in>set (unit_positions (grid_n g) (grid_sr g)). inj_on (cellp g) {p \<in> set ps. cellp g p \<noteq> 0})"
  proof (rule ball_cong[OF refl])
    fix ps assume "ps \<in> set (unit_positions (grid_n g) (grid_sr g))"
    then have "distinct ps" unfolding n by (rule unit_positions_props(1))
    then show "distinct (filter (\<lambda>v. v \<noteq> 0) (map (cellp g) ps))
        \<longleftrightarrow> inj_on (cellp g) {p \<in> set ps. cellp g p \<noteq> 0}"
      by (rule distinct_filter_map)
  qed
  finally show ?thesis using ok_units[OF wf] by simp
qed

lemma each_once_count:
  "each_once m u \<longleftrightarrow> (\<forall>d\<in>{1..m}. count_list u d = 1)"
  unfolding each_once_def list_all_iff set_upt atLeastLessThanSuc_atLeastAtMost ..

lemma each_once_iff:
  assumes len: "length u = m"
  shows "each_once m u \<longleftrightarrow> distinct u \<and> set u = {1..m}"
proof
  assume e: "each_once m u"
  have sub: "{1..m} \<subseteq> set u"
  proof
    fix d assume "d \<in> {1..m}"
    with e have "count_list u d = 1" unfolding each_once_count by blast
    then show "d \<in> set u" by (metis count_list_0_iff zero_neq_one)
  qed
  then have "card {1..m} \<le> card (set u)" by (intro card_mono) auto
  moreover have "card (set u) \<le> length u" by (rule card_length)
  ultimately have c: "card (set u) = m" using len by simp
  then have "distinct u" using len by (simp add: card_distinct)
  moreover have "{1..m} = set u" using sub c by (intro card_subset_eq) auto
  ultimately show "distinct u \<and> set u = {1..m}" by simp
next
  assume d: "distinct u \<and> set u = {1..m}"
  then have "count_list u x = 1" if "x \<in> {1..m}" for x
    using that distinct_count_atmost_1[of u] by (simp add: count_mset[symmetric])
  then show "each_once m u" unfolding each_once_count by blast
qed

lemma complete_cellp:
  assumes wf: "well_formed g"
  shows "complete g \<longleftrightarrow> (\<forall>p. in_grid (grid_n g) p \<longrightarrow> cellp g p \<noteq> 0)"
proof -
  have "complete g \<longleftrightarrow> set (empty_cells g) = {}"
    by (simp add: complete_find_empty find_empty_None)
  also have "\<dots> \<longleftrightarrow> (\<forall>p. in_grid (grid_n g) p \<longrightarrow> cellp g p \<noteq> 0)"
    unfolding set_empty_cells using wf_dims(1,2)[OF wf]
    by (auto simp: in_grid_def cellp_def)
  finally show ?thesis .
qed

lemma cell_bound:
  assumes wf: "well_formed g" and p: "in_grid (grid_n g) p"
  shows "cellp g p \<le> grid_n g"
proof -
  have "\<forall>row\<in>set (cells g). \<forall>v\<in>set row. v \<le> grid_n g"
    using wf by (simp add: well_formed_def list_all_iff)
  moreover have "cells g ! fst p \<in> set (cells g)"
    using p wf_dims(1)[OF wf] by (simp add: in_grid_def)
  moreover have "cells g ! fst p ! snd p \<in> set (cells g ! fst p)"
    using p wf_dims(2)[OF wf] by (simp add: in_grid_def)
  ultimately show ?thesis by (auto simp: cellp_def)
qed

lemma solved_iff:
  assumes wf: "well_formed g"
  shows "solved g \<longleftrightarrow> complete g \<and> ok g"
proof -
  define s where "s = grid_sr g"
  have n: "grid_n g = s * s" using wf_dims(3)[OF wf] by (simp add: s_def)
  have sv: "solved g \<longleftrightarrow>
      (\<forall>ps\<in>set (unit_positions (s * s) s).
          distinct (map (cellp g) ps) \<and> set (map (cellp g) ps) = {1..s * s})"
    using wf unit_positions_props(2)[of _ s] each_once_iff[of _ "s * s"]
    by (auto simp add: solved_def units_positions[OF wf] list_all_iff s_def[symmetric] n)
  show ?thesis
  proof
    assume "solved g"
    with sv have u: "\<And>ps. ps \<in> set (unit_positions (s * s) s) \<Longrightarrow>
        distinct (map (cellp g) ps) \<and> cellp g ` set ps = {1..s * s}" by simp
    have nz: "cellp g p \<noteq> 0" if "in_grid (s * s) p" for p
    proof -
      have "row_positions (s * s) (fst p) \<in> set (unit_positions (s * s) s)"
        using that by (simp add: unit_positions_def in_grid_def)
      moreover have "p \<in> set (row_positions (s * s) (fst p))"
        using that by (cases p) (simp add: set_row_positions in_grid_def)
      ultimately have "cellp g p \<in> {1..s * s}" using u by blast
      then show ?thesis by simp
    qed
    then have "complete g" using complete_cellp[OF wf] unfolding n by blast
    moreover have "ok g" unfolding ok_units[OF wf] s_def[symmetric] n
    proof
      fix ps assume "ps \<in> set (unit_positions (s * s) s)"
      then have "inj_on (cellp g) (set ps)" using u by (simp add: distinct_map)
      then show "inj_on (cellp g) {p \<in> set ps. cellp g p \<noteq> 0}"
        by (rule inj_on_subset) auto
    qed
    ultimately show "complete g \<and> ok g" by simp
  next
    assume a: "complete g \<and> ok g"
    then have nz: "\<And>p. in_grid (s * s) p \<Longrightarrow> cellp g p \<noteq> 0"
      using complete_cellp[OF wf] unfolding n by blast
    show "solved g" unfolding sv
    proof
      fix ps assume ps: "ps \<in> set (unit_positions (s * s) s)"
      note props = unit_positions_props[OF ps]
      have all: "{p \<in> set ps. cellp g p \<noteq> 0} = set ps" using props(3) nz by auto
      have inj: "inj_on (cellp g) (set ps)"
        using a ps all unfolding ok_units[OF wf] s_def[symmetric] n by metis
      then have d: "distinct (map (cellp g) ps)" using props(1) by (simp add: distinct_map)
      have sub: "cellp g ` set ps \<subseteq> {1..s * s}"
      proof
        fix v assume "v \<in> cellp g ` set ps"
        then obtain p where p: "p \<in> set ps" "v = cellp g p" by blast
        then have "in_grid (s * s) p" using props(3) by simp
        then have "cellp g p \<noteq> 0" "cellp g p \<le> s * s"
          using nz cell_bound[OF wf, of p] n by simp_all
        with p show "v \<in> {1..s * s}" by simp
      qed
      have "card (cellp g ` set ps) = s * s"
        using inj props(1,2) by (simp add: card_image distinct_card)
      then have "cellp g ` set ps = {1..s * s}"
        using sub by (intro card_subset_eq) auto
      with d show "distinct (map (cellp g) ps) \<and> set (map (cellp g) ps) = {1..s * s}" by simp
    qed
  qed
qed

section \<open>Placing a digit\<close>

lemma well_formed_set_cell:
  assumes wf: "well_formed g" and d: "d \<le> grid_n g"
  shows "well_formed (set_cell g rc d)"
proof -
  have len: "\<forall>row\<in>set (cells g). length row = grid_n g"
    and val: "\<forall>row\<in>set (cells g). \<forall>v\<in>set row. v \<le> grid_n g"
    using wf by (simp_all add: well_formed_def list_all_iff)
  define row' where "row' = (cells g ! fst rc)[snd rc := d]"
  have c: "cells (set_cell g rc d) = (cells g)[fst rc := row']"
    by (simp add: set_cell_def row'_def)
  have sub: "set ((cells g)[fst rc := row']) \<subseteq> insert row' (set (cells g))"
    by (rule set_update_subset_insert)
  show ?thesis
  proof (cases "fst rc < length (cells g)")
    case False
    then have "set_cell g rc d = g" by (simp add: set_cell_def list_update_beyond)
    with wf show ?thesis by simp
  next
    case True
    then have in_set: "cells g ! fst rc \<in> set (cells g)" by simp
    have l': "length row' = grid_n g" using len in_set by (simp add: row'_def)
    have v': "\<forall>v\<in>set row'. v \<le> grid_n g"
      using val in_set d set_update_subset_insert[of "cells g ! fst rc" "snd rc" d]
      unfolding row'_def by blast
    have "\<forall>row\<in>set ((cells g)[fst rc := row']). length row = grid_n g"
      using sub len l' by blast
    moreover have "\<forall>row\<in>set ((cells g)[fst rc := row']). \<forall>v\<in>set row. v \<le> grid_n g"
      using sub val v' by blast
    ultimately show ?thesis using wf
      by (simp add: well_formed_def list_all_iff c)
  qed
qed

lemma cellp_set_cell:
  assumes wf: "well_formed g" and p: "in_grid (grid_n g) p"
  shows "cellp (set_cell g rc d) p = (if p = rc then d else cellp g p)"
proof -
  have "fst p < length (cells g)" "snd p < length (cells g ! fst p)"
    using p wf_dims(1,2)[OF wf] by (simp_all add: in_grid_def)
  then show ?thesis
    using cell_set_cell[of "fst p" g "snd p" rc d] by (simp add: cellp_def)
qed

lemma found_in_grid:
  assumes wf: "well_formed g" and fe: "find_empty g = Some rc"
  shows "in_grid (grid_n g) rc" "cellp g rc = 0"
proof -
  from find_empty_Some[OF fe] have "fst rc < length (cells g)"
    "snd rc < length (cells g ! fst rc)" "cells g ! fst rc ! snd rc = 0"
    unfolding set_empty_cells by auto
  then show "in_grid (grid_n g) rc" "cellp g rc = 0"
    using wf_dims(1,2)[OF wf] by (simp_all add: in_grid_def cellp_def)
qed

lemma candidates_iff:
  "d \<in> set (candidates g r c) \<longleftrightarrow> 1 \<le> d \<and> d \<le> grid_n g \<and> is_safe g r c d"
  by (auto simp: candidates_def)

lemma okD:
  "ok g \<Longrightarrow> in_grid (grid_n g) p \<Longrightarrow> in_grid (grid_n g) q \<Longrightarrow> p \<noteq> q
     \<Longrightarrow> peer (grid_sr g) p q \<Longrightarrow> cellp g p \<noteq> 0 \<Longrightarrow> cellp g p \<noteq> cellp g q"
  unfolding ok_def by blast

lemma is_safe_at:
  assumes wf: "well_formed g" and rc: "in_grid (grid_n g) rc"
  shows "is_safe g (fst rc) (snd rc) d \<longleftrightarrow>
     (\<forall>q. in_grid (grid_n g) q \<and> peer (grid_sr g) rc q \<longrightarrow> cellp g q \<noteq> d)"
proof -
  have "fst rc < grid_n g" "snd rc < grid_n g" using rc by (simp_all add: in_grid_def)
  from is_safe_peers[OF wf this, of d] show ?thesis unfolding prod.collapse .
qed

lemma ok_set_cell:
  assumes wf: "well_formed g" and ok: "ok g" and fe: "find_empty g = Some rc"
    and d: "d \<in> set (candidates g (fst rc) (snd rc))"
  shows "ok (set_cell g rc d)"
proof -
  note rc = found_in_grid[OF wf fe]
  from d have dn: "d \<noteq> 0" and safe: "is_safe g (fst rc) (snd rc) d"
    by (simp_all add: candidates_iff)
  have free: "cellp g q \<noteq> d" if "in_grid (grid_n g) q" "peer (grid_sr g) rc q" for q
    using safe that unfolding is_safe_at[OF wf rc(1)] by blast
  have sym: "peer s p q \<longleftrightarrow> peer s q p" for s p q by (auto simp: peer_def)
  show ?thesis unfolding ok_def
  proof (intro allI impI)
    fix p q
    assume a: "in_grid (grid_n (set_cell g rc d)) p \<and> in_grid (grid_n (set_cell g rc d)) q
        \<and> p \<noteq> q \<and> peer (grid_sr (set_cell g rc d)) p q \<and> cellp (set_cell g rc d) p \<noteq> 0"
    then have p: "in_grid (grid_n g) p" and q: "in_grid (grid_n g) q" and ne: "p \<noteq> q"
      and pr: "peer (grid_sr g) p q" and nz: "cellp (set_cell g rc d) p \<noteq> 0" by simp_all
    note cp = cellp_set_cell[OF wf p, of rc d] and cq = cellp_set_cell[OF wf q, of rc d]
    show "cellp (set_cell g rc d) p \<noteq> cellp (set_cell g rc d) q"
    proof (cases "p = rc")
      case True
      with ne have "q \<noteq> rc" by simp
      with True cp cq free[OF q] pr show ?thesis by auto
    next
      case False
      show ?thesis
      proof (cases "q = rc")
        case True
        with False cp cq free[OF p] pr sym[of "grid_sr g" p q] show ?thesis by auto
      next
        case qf: False
        with False cp cq nz okD[OF ok p q ne pr] show ?thesis by simp
      qed
    qed
  qed
qed

lemma extends_cellp:
  assumes wg: "well_formed g" and wh: "well_formed h"
  shows "extends g h \<longleftrightarrow>
     grid_n h = grid_n g \<and> grid_sr h = grid_sr g
     \<and> (\<forall>p. in_grid (grid_n g) p \<longrightarrow> cellp g p = 0 \<or> cellp h p = cellp g p)"
proof (cases "grid_n h = grid_n g")
  case False
  then show ?thesis by (auto simp: extends_def)
next
  case True
  have "list_all2 (list_all2 (\<lambda>a b. a = 0 \<or> b = a)) (cells g) (cells h)
      \<longleftrightarrow> (\<forall>r<grid_n g. \<forall>c<grid_n g. cells g ! r ! c = 0 \<or> cells h ! r ! c = cells g ! r ! c)"
    using wf_dims(1,2)[OF wg] wf_dims(1,2)[OF wh] True
    by (simp add: list_all2_conv_all_nth)
  also have "\<dots> \<longleftrightarrow> (\<forall>p. in_grid (grid_n g) p \<longrightarrow> cellp g p = 0 \<or> cellp h p = cellp g p)"
    by (auto simp: in_grid_def cellp_def)
  finally show ?thesis using True by (simp add: extends_def)
qed

lemma solved_well_formed: "solved h \<Longrightarrow> well_formed h"
  by (simp add: solved_def)

lemma cells_eqI:
  assumes wg: "well_formed g" and wh: "well_formed h" and n: "grid_n h = grid_n g"
    and eq: "\<And>p. in_grid (grid_n g) p \<Longrightarrow> cellp h p = cellp g p"
  shows "cells h = cells g"
proof (rule nth_equalityI)
  show "length (cells h) = length (cells g)" using wf_dims(1)[OF wg] wf_dims(1)[OF wh] n by simp
next
  fix r assume "r < length (cells h)"
  then have r: "r < grid_n g" using wf_dims(1)[OF wh] n by simp
  show "cells h ! r = cells g ! r"
  proof (rule nth_equalityI)
    show "length (cells h ! r) = length (cells g ! r)"
      using wf_dims(2)[OF wg r] wf_dims(2)[OF wh, of r] r n by simp
  next
    fix c assume "c < length (cells h ! r)"
    then have "c < grid_n g" using wf_dims(2)[OF wh, of r] r n by simp
    with r eq[of "(r, c)"] show "cells h ! r ! c = cells g ! r ! c"
      by (simp add: in_grid_def cellp_def)
  qed
qed

lemma completions_complete:
  assumes wf: "well_formed g" and c: "complete g"
  shows "completions g = (if ok g then {g} else {})"
proof -
  have only: "h = g" if h: "h \<in> completions g" for h
  proof -
    from h have sh: "solved h" and ex: "extends g h" by (simp_all add: completions_def)
    note wh = solved_well_formed[OF sh]
    from ex have e: "grid_n h = grid_n g" "grid_sr h = grid_sr g"
      "\<And>p. in_grid (grid_n g) p \<Longrightarrow> cellp g p = 0 \<or> cellp h p = cellp g p"
      unfolding extends_cellp[OF wf wh] by blast+
    have "cells h = cells g"
    proof (rule cells_eqI[OF wf wh e(1)])
      fix p assume p: "in_grid (grid_n g) p"
      with c have "cellp g p \<noteq> 0" unfolding complete_cellp[OF wf] by blast
      with e(3)[OF p] show "cellp h p = cellp g p" by simp
    qed
    with e show ?thesis by simp
  qed
  have self: "g \<in> completions g" if "ok g"
    using that c wf by (simp add: completions_def solved_iff extends_cellp)
  have "ok g" if "h \<in> completions g" for h
    using only[OF that] that wf by (simp add: completions_def solved_iff)
  with only self show ?thesis by auto
qed

lemma completions_step:
  assumes wf: "well_formed g" and fe: "find_empty g = Some rc"
  shows "completions g = (\<Union>d\<in>set (candidates g (fst rc) (snd rc)). completions (set_cell g rc d))"
proof (intro set_eqI iffI)
  fix h assume "h \<in> completions g"
  then have sh: "solved h" and ex: "extends g h" by (simp_all add: completions_def)
  note wh = solved_well_formed[OF sh]
  note rc = found_in_grid[OF wf fe]
  from ex have e: "grid_n h = grid_n g" "grid_sr h = grid_sr g"
    "\<And>p. in_grid (grid_n g) p \<Longrightarrow> cellp g p = 0 \<or> cellp h p = cellp g p"
    unfolding extends_cellp[OF wf wh] by blast+
  from sh wh have ch: "complete h" and okh: "ok h" by (simp_all add: solved_iff)
  define d where "d = cellp h rc"
  have dz: "d \<noteq> 0" using ch rc(1) e(1) unfolding complete_cellp[OF wh] d_def by metis
  have dn: "d \<le> grid_n g" using cell_bound[OF wh, of rc] rc(1) e(1) by (simp add: d_def)
  have "is_safe g (fst rc) (snd rc) d"
    unfolding is_safe_at[OF wf rc(1)]
  proof (intro allI impI)
    fix q assume q: "in_grid (grid_n g) q \<and> peer (grid_sr g) rc q"
    show "cellp g q \<noteq> d"
    proof (cases "q = rc")
      case True
      with rc(2) dz show ?thesis by simp
    next
      case False
      show ?thesis
      proof (cases "cellp g q = 0")
        case True
        with dz show ?thesis by simp
      next
        case nz: False
        then have "cellp h q = cellp g q" using e(3)[of q] q by simp
        moreover have "cellp h rc \<noteq> cellp h q"
          using okD[OF okh, of rc q] rc(1) q False dz unfolding e d_def by blast
        ultimately show ?thesis by (simp add: d_def)
      qed
    qed
  qed
  with dz dn have cand: "d \<in> set (candidates g (fst rc) (snd rc))"
    by (simp add: candidates_iff)
  have wf': "well_formed (set_cell g rc d)" using wf dn by (rule well_formed_set_cell)
  have "extends (set_cell g rc d) h"
    unfolding extends_cellp[OF wf' wh]
    using e cellp_set_cell[OF wf, of _ rc d] by (auto simp: d_def)
  with sh cand show "h \<in> (\<Union>d\<in>set (candidates g (fst rc) (snd rc)). completions (set_cell g rc d))"
    by (auto simp: completions_def)
next
  fix h assume "h \<in> (\<Union>d\<in>set (candidates g (fst rc) (snd rc)). completions (set_cell g rc d))"
  then obtain d where d: "d \<in> set (candidates g (fst rc) (snd rc))"
    and h: "h \<in> completions (set_cell g rc d)" by blast
  from h have sh: "solved h" and ex: "extends (set_cell g rc d) h"
    by (simp_all add: completions_def)
  note wh = solved_well_formed[OF sh]
  note rc = found_in_grid[OF wf fe]
  from d have dn: "d \<le> grid_n g" by (simp add: candidates_iff)
  have wf': "well_formed (set_cell g rc d)" using wf dn by (rule well_formed_set_cell)
  have "extends g h"
    using ex rc(2) cellp_set_cell[OF wf, of _ rc d]
    unfolding extends_cellp[OF wf' wh] extends_cellp[OF wf wh]
    by (auto split: if_splits)
  with sh show "h \<in> completions g" by (simp add: completions_def)
qed

section \<open>Correctness of the two searches\<close>

lemma isqrt_square: "isqrt (s * s) = s"
proof -
  have le: "s \<le> s * s" by (cases s) simp_all
  have "[1..<Suc (s * s)] = [1..<Suc s] @ [Suc s..<Suc (s * s)]"
    using le by (metis Suc_le_mono le_add1 plus_1_eq_Suc upt_add_eq_append le_Suc_ex)
  moreover have "filter (\<lambda>i. i * i \<le> s * s) [1..<Suc s] = [1..<Suc s]"
    by (rule filter_True) (auto intro: mult_le_mono)
  moreover have "filter (\<lambda>i. i * i \<le> s * s) [Suc s..<Suc (s * s)] = []"
  proof (rule filter_False, rule ballI)
    fix i assume "i \<in> set [Suc s..<Suc (s * s)]"
    then have "Suc s \<le> i" by (simp only: set_upt atLeastLessThan_iff)
    then have lt: "s < i" by simp
    have "s * s < i * i" by (rule mult_strict_mono') (use lt in simp_all)
    then show "\<not> i * i \<le> s * s" by simp
  qed
  ultimately show ?thesis by (simp add: isqrt_def del: upt_Suc)
qed

lemma trusted_copy_well_formed:
  assumes wf: "well_formed g"
  shows "trusted_copy g = g"
proof -
  have n: "grid_n g < 256" "length (cells g) = grid_n g" "grid_sr g * grid_sr g = grid_n g"
    using wf_dims[OF wf] by simp_all
  have "isqrt (grid_n g) = grid_sr g" using isqrt_square[of "grid_sr g"] n(3) by simp
  moreover have "grid_sr g \<le> grid_n g" using n(3) by (cases "grid_sr g") auto
  ultimately show ?thesis using n
    by (simp add: trusted_copy_def unsigned_def)
qed


lemma solve_all_correct_aux:
  "self < length (fst st) \<Longrightarrow> well_formed (fst st ! self) \<Longrightarrow> ok (fst st ! self) \<Longrightarrow>
     snd (solve_all_helper self st) = snd st \<union> completions (fst st ! self)"
  "self < length (fst st) \<Longrightarrow> well_formed (fst st ! self) \<Longrightarrow> ok (fst st ! self)
     \<Longrightarrow> find_empty (fst st ! self) = Some rc
     \<Longrightarrow> set ds \<subseteq> {1..grid_n (fst st ! self)} \<Longrightarrow>
     snd (solve_all_loop self rc ds st)
       = snd st \<union> (\<Union>d\<in>{d \<in> set ds. is_safe (fst st ! self) (fst rc) (snd rc) d}.
                      completions (set_cell (fst st ! self) rc d))"
proof (induction self st and self rc ds st rule: solve_all_helper_solve_all_loop.induct)
  case (1 self h solutions)
  from "1.prems" have self: "self < length h" and wf: "well_formed (h ! self)"
    and ok: "ok (h ! self)" by simp_all
  show ?case
  proof (cases "find_empty (h ! self)")
    case None
    then have "complete (h ! self)" by (simp add: complete_find_empty)
    then have "completions (h ! self) = {h ! self}" using completions_complete[OF wf] ok by simp
    with None self show ?thesis by (simp add: solve_all_helper.simps)
  next
    case (Some rc)
    have cs: "{d \<in> set [1..<Suc (grid_n (h ! self))]. is_safe (h ! self) (fst rc) (snd rc) d}
        = set (candidates (h ! self) (fst rc) (snd rc))"
      by (auto simp: candidates_def)
    have "set [1..<Suc (grid_n (h ! self))] \<subseteq> {1..grid_n (fst (h, solutions) ! self)}" by auto
    from "1.IH"[OF self Some] "1.prems" Some this
    have "snd (solve_all_loop self rc [1..<Suc (grid_n (h ! self))] (h, solutions))
        = solutions \<union> (\<Union>d\<in>{d \<in> set [1..<Suc (grid_n (h ! self))]. is_safe (h ! self) (fst rc) (snd rc) d}.
              completions (set_cell (h ! self) rc d))"
      by simp
    then show ?thesis unfolding cs
      using self Some completions_step[OF wf Some] by (simp add: solve_all_helper.simps)
  qed
next
  case (2 self rc st)
  then show ?case by simp
next
  case (3 self rc candidate rest h solutions)
  from "3.prems" have self: "self < length h" and wf: "well_formed (h ! self)"
    and ok: "ok (h ! self)" and fe: "find_empty (h ! self) = Some rc"
    and sub: "candidate \<in> {1..grid_n (h ! self)}" "set rest \<subseteq> {1..grid_n (h ! self)}"
    by simp_all
  show ?case
  proof (cases "is_safe (h ! self) (fst rc) (snd rc) candidate")
    case False
    with "3.IH"(3) "3.prems" self show ?thesis by auto
  next
    case True
    define g1 where "g1 = set_cell (h ! self) rc candidate"
    define h2 where "h2 = h @ [g1]"
    have cond: "self < length h \<and> is_safe (h ! self) (fst rc) (snd rc) candidate"
      using self True by simp
    have h2eq: "(h @ [trusted_copy (h ! self)])
        [length h := set_cell ((h @ [trusted_copy (h ! self)]) ! length h) rc candidate] = h2"
      by (simp add: h2_def g1_def trusted_copy_well_formed[OF wf])
    have cand: "candidate \<in> set (candidates (h ! self) (fst rc) (snd rc))"
      using sub(1) True by (simp add: candidates_iff)
    have wf1: "well_formed g1" unfolding g1_def
      using well_formed_set_cell[OF wf, of candidate rc] sub(1) by simp
    have ok1: "ok g1" unfolding g1_def using wf ok fe cand by (rule ok_set_cell)
    obtain h3 sols3 where r: "solve_all_helper (length h) (h2, solutions) = (h3, sols3)"
      by (cases "solve_all_helper (length h) (h2, solutions)")
    have "snd (solve_all_helper (length h) (h2, solutions)) = solutions \<union> completions g1"
      using "3.IH"(1)[OF cond refl refl refl] wf1 ok1 unfolding h2eq by (simp add: h2_def)
    then have sols3: "sols3 = solutions \<union> completions g1" using r by simp
    have "prefix h2 h3" using solve_all_frame(1)[of "(h2, solutions)" "length h"] r by simp
    then have "prefix h h3" unfolding h2_def by (rule append_prefixD)
    then have h3: "h3 ! self = h ! self" "self < length h3"
      using self prefix_nth[of h h3 self] prefix_length_le[of h h3] by simp_all
    have run: "solve_all_loop self rc (candidate # rest) (h, solutions)
        = solve_all_loop self rc rest (h3, sols3)"
      using cond r h2eq by (simp add: Let_def)
    have "snd (solve_all_loop self rc rest (h3, sols3))
        = sols3 \<union> (\<Union>d\<in>{d \<in> set rest. is_safe (h ! self) (fst rc) (snd rc) d}.
              completions (set_cell (h ! self) rc d))"
      using "3.IH"(2)[OF cond refl refl refl] wf ok fe sub(2) h3 unfolding h2eq r by simp
    then show ?thesis unfolding run sols3 using True by (auto simp: g1_def)
  qed
qed

section \<open>A solved grid of every square size\<close>















section \<open>The enumeration and the existence test on valid grids\<close>

text \<open>
  Two more example grids: a valid puzzle with a single empty cell, and a complete grid
  that breaks every rule.
\<close>

definition one_left :: sudoku where
  "one_left = \<lparr>grid_n = 4, grid_sr = 2,
     cells = [[1, 2, 3, 4], [3, 4, 1, 2], [2, 1, 4, 3], [4, 3, 2, 0]]\<rparr>"


lemma valid_ok: "valid g \<Longrightarrow> well_formed g \<and> ok g"
  using no_conflict_ok[of g] by (simp add: valid_def)

lemma solve_all_completions:
  assumes "self < length h" "valid (h ! self)"
  shows "fst (solve_all self h) = completions (h ! self)"
proof -
  obtain h' s where r: "solve_all_helper self (h, {}) = (h', s)"
    by (cases "solve_all_helper self (h, {})")
  from solve_all_correct_aux(1)[of self "(h, {})"] assms valid_ok[OF assms(2)] r
  have "s = completions (h ! self)" by simp
  with r show ?thesis by (simp add: solve_all_def)
qed

lemma completions_single:
  assumes v: "valid g" and e: "empty_cells g = [rc]"
    and c: "candidates g (fst rc) (snd rc) = [d]"
  shows "completions g = {set_cell g rc d}"
proof -
  from valid_ok[OF v] have wf: "well_formed g" and ok: "ok g" by simp_all
  have fe: "find_empty g = Some rc" using e by (simp add: find_empty_def)
  have d: "d \<in> set (candidates g (fst rc) (snd rc))" using c by simp
  then have dn: "d \<noteq> 0" "d \<le> grid_n g" by (simp_all add: candidates_iff)
  have wf': "well_formed (set_cell g rc d)" using wf dn(2) by (rule well_formed_set_cell)
  have ok': "ok (set_cell g rc d)" using wf ok fe d by (rule ok_set_cell)
  have "set (empty_cells (set_cell g rc d)) = {}"
    using empty_cells_set_cell_nonzero[OF dn(1), of g rc] e by simp
  then have "complete (set_cell g rc d)" by (simp add: complete_find_empty find_empty_None)
  then have "completions (set_cell g rc d) = {set_cell g rc d}"
    using completions_complete[OF wf'] ok' by simp
  then show ?thesis using completions_step[OF wf fe] c by simp
qed

lemma upt4: "[0..<4] = [0, 1, 2, 3]" "[1..<Suc 4] = [1, 2, 3, 4]"
  by (simp_all add: upt_rec)

lemma isqrt_4: "isqrt 4 = 2"
  using isqrt_square[of 2] by simp

lemma units_one_left:
  "units one_left =
     [[1, 2, 3, 4], [3, 4, 1, 2], [2, 1, 4, 3], [4, 3, 2, 0],
      [1, 3, 2, 4], [2, 4, 1, 3], [3, 1, 4, 2], [4, 2, 3, 0],
      [1, 2, 3, 4], [1, 2, 3, 4], [3, 4, 1, 2], [3, 4, 1, 2],
      [1, 2, 3, 4], [1, 2, 3, 4], [3, 4, 1, 2], [3, 4, 1, 2],
      [2, 1, 4, 3], [2, 1, 4, 3], [4, 3, 2, 0], [4, 3, 2, 0],
      [2, 1, 4, 3], [2, 1, 4, 3], [4, 3, 2, 0], [4, 3, 2, 0]]"
  by (simp add: units_def column_def box_def one_left_def upt4)

lemma valid_one_left: "valid one_left"
proof -
  have "well_formed one_left" by (simp add: well_formed_def one_left_def)
  moreover have "no_conflict one_left" unfolding no_conflict_def units_one_left by simp
  ultimately show ?thesis by (simp add: valid_def)
qed



lemma one_left_cell: "empty_cells one_left = [(3, 3)]" "candidates one_left 3 3 = [1]"
proof -
  show "empty_cells one_left = [(3, 3)]"
    by (simp add: empty_cells_def one_left_def)
  have u: "[1..<Suc (grid_n one_left)] = [1, 2, 3, 4]"
    by (simp add: one_left_def upt_rec)
  show "candidates one_left 3 3 = [1]" unfolding candidates_def u
    by (simp add: is_safe_def row_safe_def col_safe_def box_safe_def box_def one_left_def)
qed

text \<open>
  Claim C2. For a valid grid (well formed, its filled cells free of conflicts)
  \<^verbatim>\<open>solve_all\<close> returns exactly the set of its completions: the solved grids that agree with
  it on its non-zero cells; the set is empty when there is none. When the grid has exactly
  one empty cell and that cell exactly one safe digit, the result is the one-element set
  holding the grid with that cell filled.
\<close>

theorem solve_all_returns_exactly_the_completions:
  assumes "self < length h" "valid (h ! self)"
  shows "fst (solve_all self h) = completions (h ! self)
     \<and> (\<forall>rc d. empty_cells (h ! self) = [rc] \<and> candidates (h ! self) (fst rc) (snd rc) = [d]
          \<longrightarrow> fst (solve_all self h) = {set_cell (h ! self) rc d})"
  using solve_all_completions[OF assms] completions_single[OF assms(2)] by simp

theorem solve_all_returns_exactly_the_completions_witness:
  "(0::nat) < length [one_left] \<and> valid ([one_left] ! 0)
   \<and> fst (solve_all 0 [one_left]) = completions one_left
   \<and> fst (solve_all 0 [one_left]) = {set_cell one_left (3, 3) 1}"
proof -
  have a: "(0::nat) < length [one_left]" and b: "valid ([one_left] ! 0)"
    using valid_one_left by simp_all
  note t = solve_all_returns_exactly_the_completions[OF a b]
  from t have c: "fst (solve_all 0 [one_left]) = completions ([one_left] ! 0)" by (rule conjunct1)
  from t[THEN conjunct2, rule_format, of "(3, 3)" 1] one_left_cell
  have "fst (solve_all 0 [one_left]) = {set_cell one_left (3, 3) 1}" by simp
  with c a b show ?thesis by simp
qed







end
